theory Spec2Isabelle
  imports Complex_Main "HOL-Library.Multiset" "HOL-Library.Product_Lexorder"
begin

section \<open>Configuration (src/src/config.py)\<close>

definition PEAK_NEIGHBORHOOD_SIZE :: nat where
  "PEAK_NEIGHBORHOOD_SIZE = 5"

definition MIN_PEAK_AMPLITUDE :: real where
  "MIN_PEAK_AMPLITUDE = 0.001"

definition HASH_TIME_DELTA_MIN :: int where
  "HASH_TIME_DELTA_MIN = 1"

definition HASH_TIME_DELTA_MAX :: int where
  "HASH_TIME_DELTA_MAX = 200"

definition HASH_FAN_VALUE :: nat where
  "HASH_FAN_VALUE = 5"

definition MIN_MATCHING_HASHES :: nat where
  "MIN_MATCHING_HASHES = 3"

definition TIME_ALIGNMENT_TOLERANCE :: int where
  "TIME_ALIGNMENT_TOLERANCE = 5"

definition CONFIDENCE_THRESHOLD :: real where
  "CONFIDENCE_THRESHOLD = 0.05"

definition MAX_QUERY_DURATION :: nat where
  "MAX_QUERY_DURATION = 30"

definition SAMPLE_RATE :: nat where
  "SAMPLE_RATE = 22050"

definition MAX_FINGERPRINTS_PER_TRACK :: nat where
  "MAX_FINGERPRINTS_PER_TRACK = 10000"

section \<open>Fingerprinting (src/src/fingerprinting.py)\<close>

record SpectralPeak =
  frequency_bin :: int
  time_frame :: int
  amplitude :: real

record AudioHash =
  hash_value :: string
  time_offset :: int
  anchor_freq :: int
  target_freq :: int
  time_delta :: int

text \<open>
  A magnitude spectrogram is a numpy array of shape (freq_bins, time_frames).  The model
  stores it frame by frame: the \<open>t\<close>-th element is the column \<open>S[:, t]\<close>, the
  magnitudes of all frequency bins at frame \<open>t\<close>.  Magnitudes are reals (no NaN).
\<close>

type_synonym spectrogram = "real list list"

text \<open>The slice \<open>x[lo:hi]\<close> for non-negative bounds (empty when \<open>hi \<le> lo\<close>).\<close>

definition py_slice :: "nat \<Rightarrow> nat \<Rightarrow> 'a list \<Rightarrow> 'a list" where
  "py_slice lo hi xs = take (hi - lo) (drop lo xs)"

subsection \<open>The library routine \<open>scipy.signal.find_peaks\<close>\<close>

text \<open>
  \<open>_find_peaks_in_band\<close> calls \<open>find_peaks(x, height=h, distance=d)\<close>.  The routine is
  modelled after its implementation: \<open>_local_maxima_1d\<close> scans the samples \<open>1 .. n - 2\<close>
  for strict rises followed, after a possible plateau, by a strict fall, and reports the
  middle of each plateau; the height condition keeps the maxima with \<open>h \<le> x[p]\<close>; the
  distance condition visits the remaining maxima from the highest to the lowest and
  removes every other maximum closer than \<open>d\<close> samples to one it keeps.  The order of
  that visit is the reverse of \<open>np.argsort\<close> of the heights.
\<close>

function look_ahead :: "real list \<Rightarrow> nat \<Rightarrow> nat \<Rightarrow> nat \<Rightarrow> nat" where
  "look_ahead x i i_max i_ahead =
     (if i_ahead < i_max \<and> x ! i_ahead = x ! i
      then look_ahead x i i_max (i_ahead + 1)
      else i_ahead)"
  by pat_completeness auto
termination
  by (relation "measure (\<lambda>(x, i, i_max, i_ahead). i_max - i_ahead)") auto

declare look_ahead.simps [simp del]

lemma look_ahead_ge: "i_ahead \<le> look_ahead x i i_max i_ahead"
proof (induction x i i_max i_ahead rule: look_ahead.induct)
  case (1 x i i_max i_ahead)
  show ?case
  proof (cases "i_ahead < i_max \<and> x ! i_ahead = x ! i")
    case True
    with 1 have "i_ahead + 1 \<le> look_ahead x i i_max (i_ahead + 1)" by simp
    with True show ?thesis by (subst look_ahead.simps) simp
  next
    case False
    then show ?thesis by (subst look_ahead.simps) auto
  qed
qed

function local_maxima_from :: "real list \<Rightarrow> nat \<Rightarrow> nat list" where
  "local_maxima_from x i =
     (if i < length x - 1 then
        (if x ! (i - 1) < x ! i then
           (if x ! (look_ahead x i (length x - 1) (i + 1)) < x ! i
            then ((i + (look_ahead x i (length x - 1) (i + 1) - 1)) div 2)
                 # local_maxima_from x (look_ahead x i (length x - 1) (i + 1) + 1)
            else local_maxima_from x (i + 1))
         else local_maxima_from x (i + 1))
      else [])"
  by pat_completeness auto
termination
proof (relation "measure (\<lambda>(x, i). length x - i)")
  show "wf (measure (\<lambda>(x, i). length x - i))" by simp
next
  fix x :: "real list" and i :: nat
  assume "i < length x - 1"
  moreover have "i + 1 \<le> look_ahead x i (length x - 1) (i + 1)" by (rule look_ahead_ge)
  ultimately show "((x, look_ahead x i (length x - 1) (i + 1) + 1), (x, i))
                     \<in> measure (\<lambda>(x, i). length x - i)"
    by simp
qed auto

declare local_maxima_from.simps [simp del]

definition local_maxima_1d :: "real list \<Rightarrow> nat list" where
  "local_maxima_1d x = local_maxima_from x 1"

text \<open>Boolean-mask indexing \<open>xs[keep]\<close>.\<close>

definition mask_select :: "'a list \<Rightarrow> bool list \<Rightarrow> 'a list" where
  "mask_select xs keep = map fst (filter snd (zip xs keep))"

definition select_by_property :: "real list \<Rightarrow> real \<Rightarrow> bool list" where
  "select_by_property peak_properties pmin = map (\<lambda>v. pmin \<le> v) peak_properties"

text \<open>
  \<open>np.argsort\<close> with its default kind is not a stable sort: it returns the indices in
  ascending order of their values, and the order of the indices of equal values is left
  to the implementation.  The model therefore takes the argsort as a parameter, and a
  property that depends on it assumes \<open>is_argsort\<close>: the result is a permutation of the
  indices that puts the values in ascending order.
\<close>

definition is_argsort :: "(real list \<Rightarrow> nat list) \<Rightarrow> bool" where
  "is_argsort argsort \<longleftrightarrow>
     (\<forall>priority. mset (argsort priority) = mset [0..<length priority]
                 \<and> sorted (map (\<lambda>j. priority ! j) (argsort priority)))"

text \<open>
  The two inner loops of \<open>_select_by_peak_distance\<close>.  In \<open>flag_earlier\<close> the fourth
  argument is \<open>k + 1\<close> for the loop variable \<open>k\<close>, so that \<open>0\<close> ends the loop
  \<open>while 0 <= k and peaks[j] - peaks[k] < distance\<close>.
\<close>

fun flag_earlier :: "nat list \<Rightarrow> nat \<Rightarrow> nat \<Rightarrow> nat \<Rightarrow> bool list \<Rightarrow> bool list" where
  "flag_earlier peaks distance j 0 keep = keep"
| "flag_earlier peaks distance j (Suc k) keep =
     (if int (peaks ! j) - int (peaks ! k) < int distance
      then flag_earlier peaks distance j k (keep[k := False])
      else keep)"

function flag_later :: "nat list \<Rightarrow> nat \<Rightarrow> nat \<Rightarrow> nat \<Rightarrow> bool list \<Rightarrow> bool list" where
  "flag_later peaks distance j k keep =
     (if k < length peaks \<and> int (peaks ! k) - int (peaks ! j) < int distance
      then flag_later peaks distance j (k + 1) (keep[k := False])
      else keep)"
  by pat_completeness auto
termination
  by (relation "measure (\<lambda>(peaks, distance, j, k, keep). length peaks - k)") auto

declare flag_later.simps [simp del]

fun select_loop :: "nat list \<Rightarrow> nat \<Rightarrow> nat list \<Rightarrow> bool list \<Rightarrow> bool list" where
  "select_loop peaks distance [] keep = keep"
| "select_loop peaks distance (j # js) keep =
     (if \<not> keep ! j then select_loop peaks distance js keep
      else select_loop peaks distance js
             (flag_later peaks distance j (j + 1) (flag_earlier peaks distance j j keep)))"

definition select_by_peak_distance ::
  "(real list \<Rightarrow> nat list) \<Rightarrow> nat list \<Rightarrow> real list \<Rightarrow> nat \<Rightarrow> bool list"
where
  "select_by_peak_distance argsort peaks priority distance =
     select_loop peaks distance (rev (argsort priority)) (replicate (length peaks) True)"

definition find_peaks :: "(real list \<Rightarrow> nat list) \<Rightarrow> real list \<Rightarrow> real \<Rightarrow> nat \<Rightarrow> nat list" where
  "find_peaks argsort x height distance =
     (let peaks = local_maxima_1d x;
          peaks = mask_select peaks (select_by_property (map (\<lambda>p. x ! p) peaks) height);
          peaks = mask_select peaks
                    (select_by_peak_distance argsort peaks (map (\<lambda>p. x ! p) peaks)
                       distance)
      in peaks)"

subsection \<open>Peak picking\<close>

text \<open>\<open>np.argmax\<close> on a non-empty array: the first index that holds the maximum.\<close>

definition argmax :: "real list \<Rightarrow> nat" where
  "argmax xs = length (takeWhile (\<lambda>v. v < Max (set xs)) xs)"

text \<open>
  The body of the loop over time frames in \<open>_find_peaks_in_band\<close>: the peaks (none or
  one) that frame \<open>time_idx\<close> contributes.  The first argument of this and of the
  following functions is the argsort that \<open>find_peaks\<close> uses.
\<close>

definition frame_peak ::
  "(real list \<Rightarrow> nat list) \<Rightarrow> nat \<Rightarrow> nat \<Rightarrow> real list \<Rightarrow> SpectralPeak list"
where
  "frame_peak argsort freq_offset time_idx time_slice =
     (let peak_indices =
            find_peaks argsort time_slice MIN_PEAK_AMPLITUDE PEAK_NEIGHBORHOOD_SIZE in
      if length peak_indices > 0 then
        (let amplitudes = map (\<lambda>p. time_slice ! p) peak_indices;
             strongest_idx = argmax amplitudes
         in [\<lparr>frequency_bin = int (peak_indices ! strongest_idx + freq_offset),
              time_frame = int time_idx,
              amplitude = amplitudes ! strongest_idx\<rparr>])
      else [])"

definition find_peaks_in_band ::
  "(real list \<Rightarrow> nat list) \<Rightarrow> spectrogram \<Rightarrow> nat \<Rightarrow> SpectralPeak list"
where
  "find_peaks_in_band argsort band_spectrogram freq_offset =
     concat (map (\<lambda>(time_idx, time_slice).
                    frame_peak argsort freq_offset time_idx time_slice)
                 (enumerate 0 band_spectrogram))"

text \<open>The restriction \<open>spectrogram[low_bin:high_bin, :]\<close> of every frame to a band.\<close>

definition band_spec :: "spectrogram \<Rightarrow> nat \<Rightarrow> nat \<Rightarrow> spectrogram" where
  "band_spec S low_bin high_bin = map (py_slice low_bin high_bin) S"

text \<open>
  \<open>extract_peaks\<close>; \<open>band_indices\<close> is the fingerprinter's list of (low_bin, high_bin)
  pairs.  \<open>list.sort\<close> is stable, as \<open>sort_key\<close> is, and the key is the pair
  (time_frame, -amplitude) in lexicographic order.
\<close>

definition peak_sort_key :: "SpectralPeak \<Rightarrow> int \<times> real" where
  "peak_sort_key p = (time_frame p, - amplitude p)"

definition band_peaks ::
  "(real list \<Rightarrow> nat list) \<Rightarrow> (nat \<times> nat) list \<Rightarrow> spectrogram \<Rightarrow> SpectralPeak list"
where
  "band_peaks argsort band_indices S =
     concat (map (\<lambda>(low_bin, high_bin).
                    find_peaks_in_band argsort (band_spec S low_bin high_bin) low_bin)
                 band_indices)"

definition extract_peaks ::
  "(real list \<Rightarrow> nat list) \<Rightarrow> (nat \<times> nat) list \<Rightarrow> spectrogram \<Rightarrow> SpectralPeak list"
where
  "extract_peaks argsort band_indices S =
     sort_key peak_sort_key (band_peaks argsort band_indices S)"

subsection \<open>Hash generation\<close>

text \<open>Python's \<open>str\<close> of an integer, as the f-string of \<open>_create_hash\<close> formats it.\<close>

fun str_nat :: "nat \<Rightarrow> string" where
  "str_nat n =
     (if n < 10 then [char_of (48 + n)]
      else str_nat (n div 10) @ [char_of (48 + n mod 10)])"

declare str_nat.simps [simp del]

definition str_int :: "int \<Rightarrow> string" where
  "str_int i = (if i < 0 then CHR ''-'' # str_nat (nat (- i)) else str_nat (nat i))"

text \<open>
  \<open>_find_target_peaks\<close>: the loop over the candidates with its \<open>continue\<close> and its two
  \<open>break\<close>s; the last argument is the list \<open>targets\<close> built so far.
\<close>

fun find_target_loop ::
  "SpectralPeak \<Rightarrow> nat \<Rightarrow> SpectralPeak list \<Rightarrow> SpectralPeak list \<Rightarrow> SpectralPeak list"
where
  "find_target_loop anchor_peak max_targets [] targets = targets"
| "find_target_loop anchor_peak max_targets (peak # candidate_peaks) targets =
     (if time_frame peak - time_frame anchor_peak < HASH_TIME_DELTA_MIN
      then find_target_loop anchor_peak max_targets candidate_peaks targets
      else if time_frame peak - time_frame anchor_peak > HASH_TIME_DELTA_MAX
      then targets
      else if length (targets @ [peak]) \<ge> max_targets
      then targets @ [peak]
      else find_target_loop anchor_peak max_targets candidate_peaks (targets @ [peak]))"

definition find_target_peaks ::
  "SpectralPeak \<Rightarrow> SpectralPeak list \<Rightarrow> nat \<Rightarrow> SpectralPeak list"
where
  "find_target_peaks anchor_peak candidate_peaks max_targets =
     find_target_loop anchor_peak max_targets candidate_peaks []"

text \<open>
  \<open>_create_hash\<close>.  The digest \<open>hashlib.sha256(s.encode()).hexdigest()\<close> is a library
  function; the model takes it as the parameter \<open>sha256_hexdigest\<close>.
\<close>

definition hash_string :: "int \<Rightarrow> int \<Rightarrow> int \<Rightarrow> string" where
  "hash_string a_freq t_freq delta =
     str_int a_freq @ ''|'' @ str_int t_freq @ ''|'' @ str_int delta"

definition create_hash ::
  "(string \<Rightarrow> string) \<Rightarrow> SpectralPeak \<Rightarrow> SpectralPeak \<Rightarrow> AudioHash option"
where
  "create_hash sha256_hexdigest anchor target =
     (let delta = time_frame target - time_frame anchor in
      if \<not> (HASH_TIME_DELTA_MIN \<le> delta \<and> delta \<le> HASH_TIME_DELTA_MAX) then None
      else Some \<lparr>hash_value =
                   take 16 (sha256_hexdigest
                     (hash_string (frequency_bin anchor) (frequency_bin target) delta)),
                 time_offset = time_frame anchor,
                 anchor_freq = frequency_bin anchor,
                 target_freq = frequency_bin target,
                 time_delta = delta\<rparr>)"

text \<open>
  \<open>generate_hashes\<close>: \<open>sorted\<close> is stable; the anchor at position \<open>anchor_idx\<close> is paired
  with targets taken from \<open>peaks_by_time[anchor_idx + 1:]\<close>, and every hash that
  \<open>_create_hash\<close> returns is appended.  No limit is applied to the length of the result.
\<close>

fun generate_loop :: "(string \<Rightarrow> string) \<Rightarrow> SpectralPeak list \<Rightarrow> AudioHash list" where
  "generate_loop sha256_hexdigest [] = []"
| "generate_loop sha256_hexdigest (anchor_peak # later) =
     List.map_filter (create_hash sha256_hexdigest anchor_peak)
       (find_target_peaks anchor_peak later HASH_FAN_VALUE)
     @ generate_loop sha256_hexdigest later"

definition generate_hashes :: "(string \<Rightarrow> string) \<Rightarrow> SpectralPeak list \<Rightarrow> AudioHash list" where
  "generate_hashes sha256_hexdigest peaks =
     generate_loop sha256_hexdigest (sort_key time_frame peaks)"

text \<open>
  \<open>fingerprint_audio\<close>.  The short-time Fourier transform is floating-point library code;
  it enters as the parameter \<open>compute_spectrogram\<close>, after the argsort.
\<close>

definition fingerprint_audio ::
  "(real list \<Rightarrow> nat list) \<Rightarrow> (real list \<Rightarrow> spectrogram) \<Rightarrow> (string \<Rightarrow> string)
     \<Rightarrow> (nat \<times> nat) list \<Rightarrow> real list \<Rightarrow> AudioHash list"
where
  "fingerprint_audio argsort compute_spectrogram sha256_hexdigest band_indices audio =
     (let spectrogram = compute_spectrogram audio;
          peaks = extract_peaks argsort band_indices spectrogram
      in if length peaks = 0 then []
         else (let hashes = generate_hashes sha256_hexdigest peaks
               in if length hashes = 0 then [] else hashes))"

section \<open>Database (src/src/database.py)\<close>

text \<open>
  A row of the SQLite table \<open>songs\<close> (the \<open>date_added\<close> timestamp is left out: no
  operation modelled here reads it), and a posting as \<open>_store_fingerprints_redis\<close>
  pickles it.  \<open>search_fingerprints\<close> adds the query time to every posting it returns.
\<close>

record song_row =
  row_id :: nat
  row_title :: string
  row_artist :: string
  row_album :: "string option"
  row_file_path :: string
  row_duration :: "real option"
  row_file_size :: "nat option"
  row_fingerprint_count :: nat

record occurrence =
  occ_song_id :: nat
  occ_time_offset :: int
  occ_anchor_freq :: int
  occ_target_freq :: int
  occ_time_delta :: int

record matched_occurrence = occurrence +
  query_time :: int

text \<open>
  The two stores.  \<open>redis_client\<close> is False when the connection could not be opened
  (\<open>self.redis_client = None\<close>); \<open>redis\<close> maps a key to its list, most recently pushed
  element first; \<open>songs\<close> holds the rows in insertion order and \<open>sqlite_sequence\<close> is the
  largest row id that AUTOINCREMENT has handed out.
\<close>

record database =
  redis_client :: bool
  redis :: "string \<Rightarrow> occurrence list"
  songs :: "song_row list"
  sqlite_sequence :: nat

definition init_database :: "bool \<Rightarrow> database" where
  "init_database redis_up =
     \<lparr>redis_client = redis_up, redis = (\<lambda>key. []), songs = [], sqlite_sequence = 0\<rparr>"

text \<open>
  Exceptions are values.  \<open>OperationalError\<close> stands for a failure of the SQLite statement
  or commit, \<open>ConnectionError\<close> for a failure of the Redis pipeline, \<open>LoadError\<close> for any
  exception of loading, preprocessing or fingerprinting, \<open>ResampleError\<close> for an exception
  of a scipy resampler.  \<open>DuplicatePath\<close> and \<open>EmptyInput\<close> are the errors the
  specification names; no statement of the source raises them.
\<close>

datatype py_error =
  OperationalError | ConnectionError | LoadError | ResampleError | DuplicatePath | EmptyInput

text \<open>Which external call of one ingest raises, if any.\<close>

datatype fault = NoFault | SqliteFails | RedisFails

definition hash_key :: "string \<Rightarrow> string" where
  "hash_key hv = ''hash:'' @ hv"

definition get_song_metadata :: "database \<Rightarrow> nat \<Rightarrow> song_row option" where
  "get_song_metadata db song_id = find (\<lambda>r. row_id r = song_id) (songs db)"

definition get_song_by_path :: "database \<Rightarrow> string \<Rightarrow> song_row option" where
  "get_song_by_path db file_path = find (\<lambda>r. row_file_path r = file_path) (songs db)"

text \<open>
  \<open>INSERT OR REPLACE INTO songs\<close> without an explicit id: a row that holds the same
  \<open>file_path\<close> (the UNIQUE column) is deleted, and the new row gets the next AUTOINCREMENT
  id, one more than the largest id ever used.  The result is \<open>cursor.lastrowid\<close>.
\<close>

definition insert_or_replace ::
  "database \<Rightarrow> string \<Rightarrow> string \<Rightarrow> string option \<Rightarrow> string \<Rightarrow> real option \<Rightarrow> nat option
     \<Rightarrow> nat \<Rightarrow> database \<times> nat"
where
  "insert_or_replace db title artist album file_path duration file_size fingerprint_count =
     (let song_id = Suc (max (sqlite_sequence db) (fold max (map row_id (songs db)) 0));
          new_row = \<lparr>row_id = song_id, row_title = title, row_artist = artist,
                     row_album = album, row_file_path = file_path,
                     row_duration = duration, row_file_size = file_size,
                     row_fingerprint_count = fingerprint_count\<rparr>
      in (db\<lparr>songs := filter (\<lambda>r. row_file_path r \<noteq> file_path) (songs db) @ [new_row],
              sqlite_sequence := song_id\<rparr>,
          song_id))"

definition lpush ::
  "string \<Rightarrow> occurrence \<Rightarrow> (string \<Rightarrow> occurrence list) \<Rightarrow> (string \<Rightarrow> occurrence list)"
where
  "lpush key v r = r(key := v # r key)"

definition occurrence_data :: "nat \<Rightarrow> AudioHash \<Rightarrow> occurrence" where
  "occurrence_data song_id fingerprint =
     \<lparr>occ_song_id = song_id,
      occ_time_offset = time_offset fingerprint,
      occ_anchor_freq = anchor_freq fingerprint,
      occ_target_freq = target_freq fingerprint,
      occ_time_delta = time_delta fingerprint\<rparr>"

text \<open>
  \<open>_store_fingerprints_redis\<close>: one \<open>lpush\<close> per fingerprint, queued in a pipeline and
  executed together.  (The expiry that the pipeline also sets is a matter of real time
  and is not modelled.)
\<close>

definition store_fingerprints_redis :: "database \<Rightarrow> nat \<Rightarrow> AudioHash list \<Rightarrow> database" where
  "store_fingerprints_redis db song_id fingerprints =
     (if \<not> redis_client db then db
      else db\<lparr>redis :=
                fold (\<lambda>fingerprint. lpush (hash_key (hash_value fingerprint))
                                      (occurrence_data song_id fingerprint))
                     fingerprints (redis db)\<rparr>)"

text \<open>
  \<open>add_song\<close>.  The row is inserted and committed first; only then are the postings
  written.  An exception of the SQLite block leaves both stores as they were; an
  exception of the pipeline leaves the index as it was and the committed row in place.
\<close>

definition add_song ::
  "fault \<Rightarrow> database \<Rightarrow> string \<Rightarrow> string \<Rightarrow> string \<Rightarrow> AudioHash list \<Rightarrow> string option
     \<Rightarrow> real option \<Rightarrow> nat option \<Rightarrow> database \<times> (py_error + nat)"
where
  "add_song fault db title artist file_path fingerprints album duration file_size =
     (if fault = SqliteFails then (db, Inl OperationalError)
      else
        (let (db1, song_id) =
               insert_or_replace db title artist album file_path duration file_size
                 (length fingerprints)
         in if redis_client db1 \<and> fingerprints \<noteq> [] then
              (if fault = RedisFails then (db1, Inl ConnectionError)
               else (store_fingerprints_redis db1 song_id fingerprints, Inr song_id))
            else (db1, Inr song_id)))"

text \<open>
  \<open>search_fingerprints\<close>.  The result dictionary keeps its keys in insertion order, so it
  is an association list; \<open>lrange(key, 0, -1)\<close> reads the whole list.
\<close>

fun dict_append ::
  "nat \<Rightarrow> matched_occurrence \<Rightarrow> (nat \<times> matched_occurrence list) list
     \<Rightarrow> (nat \<times> matched_occurrence list) list"
where
  "dict_append k v [] = [(k, [v])]"
| "dict_append k v ((k', vs) # m) =
     (if k = k' then (k', vs @ [v]) # m else (k', vs) # dict_append k v m)"

definition with_query_time :: "occurrence \<Rightarrow> int \<Rightarrow> matched_occurrence" where
  "with_query_time occ qt = occurrence.extend occ \<lparr>query_time = qt\<rparr>"

definition search_fingerprints ::
  "database \<Rightarrow> AudioHash list \<Rightarrow> (nat \<times> matched_occurrence list) list"
where
  "search_fingerprints db query_hashes =
     (if \<not> redis_client db then []
      else fold (\<lambda>query_hash matches.
                   fold (\<lambda>occ. dict_append (occ_song_id occ)
                                  (with_query_time occ (time_offset query_hash)))
                        (redis db (hash_key (hash_value query_hash))) matches)
                query_hashes [])"

text \<open>
  \<open>remove_song\<close>: the row is deleted, the postings stay.  (The table
  \<open>fingerprint_stats\<close>, which the source also clears, is never written and is not
  modelled.)
\<close>

definition remove_song :: "database \<Rightarrow> nat \<Rightarrow> database \<times> bool" where
  "remove_song db song_id =
     (case get_song_metadata db song_id of
        None \<Rightarrow> (db, False)
      | Some song_info \<Rightarrow>
          (db\<lparr>songs := filter (\<lambda>r. row_id r \<noteq> song_id) (songs db)\<rparr>, True))"

section \<open>Orchestrator: ingest (src/src/shazam_system.py)\<close>

text \<open>
  \<open>add_song_to_database\<close>.  Loading, preprocessing and fingerprinting happen inside the
  \<open>try\<close> block before the database is touched; \<open>pipeline\<close> is their outcome: an exception,
  or the fingerprints with the duration of the audio.  Every exception, also one of
  \<open>add_song\<close>, is caught and turned into the result None.
\<close>

definition add_song_to_database ::
  "fault \<Rightarrow> database \<Rightarrow> (py_error + AudioHash list \<times> real) \<Rightarrow> string \<Rightarrow> string \<Rightarrow> string
     \<Rightarrow> string option \<Rightarrow> nat option \<Rightarrow> database \<times> nat option"
where
  "add_song_to_database fault db pipeline file_path title artist album file_size =
     (case pipeline of
        Inl e \<Rightarrow> (db, None)
      | Inr (fingerprints, duration) \<Rightarrow>
          if fingerprints = [] then (db, None)
          else
            (case add_song fault db title artist file_path fingerprints album
                    (Some duration) file_size of
               (db', Inl e) \<Rightarrow> (db', None)
             | (db', Inr new_id) \<Rightarrow> (db', Some new_id)))"

section \<open>Matcher: confidence score (src/src/matching.py)\<close>

text \<open>
  \<open>AudioMatcher._calculate_confidence\<close>.  The three arguments are counts (the size of the
  largest offset cluster, the size of the candidate's bucket, the number of query
  hashes).  Python computes the score in double precision; the model uses the reals, so
  it describes the formula and not its rounding.
\<close>

definition calculate_confidence :: "nat \<Rightarrow> nat \<Rightarrow> nat \<Rightarrow> real" where
  "calculate_confidence aligned_count total_matches total_query_hashes =
     (if total_matches = 0 \<or> total_query_hashes = 0 then 0
      else
        let alignment_strength = real aligned_count / real total_matches;
            coverage = min 1 (real total_matches / real total_query_hashes);
            raw_strength = min 1 (ln (real aligned_count + 1) / ln 20);
            unique_bonus =
              (if total_matches > total_query_hashes
               then max 0.5 (real total_query_hashes / real total_matches)
               else 1);
            confidence =
              0.4 * alignment_strength + 0.3 * raw_strength + 0.2 * coverage
              + 0.1 * unique_bonus
        in min 1 confidence)"

text \<open>
  The score as the specification writes it (section 4.6, step 5): the uniqueness bonus is
  \<open>min(1, q / m)\<close> for an over-full bucket and the sum is clamped to \<open>[0, 1]\<close>.
\<close>

definition spec_confidence :: "nat \<Rightarrow> nat \<Rightarrow> nat \<Rightarrow> real" where
  "spec_confidence a m q =
     max 0 (min 1
       (0.4 * (real a / real m)
        + 0.3 * min 1 (ln (real a + 1) / ln 20)
        + 0.2 * min 1 (real m / real q)
        + 0.1 * (if m > q then min 1 (real q / real m) else 1)))"

section \<open>Matcher: alignment and ranking (src/src/matching.py)\<close>

record MatchResult =
  song_id :: nat
  title :: string
  artist :: string
  album :: "string option"
  confidence :: real
  matching_hashes :: nat
  total_query_hashes :: nat
  match_time_offset :: int
  alignment_strength :: real

text \<open>
  Python's \<open>round\<close> of a number to an integer: to the nearest integer, a tie to the even
  one.  The offsets are integers, so \<open>offset / TIME_ALIGNMENT_TOLERANCE\<close> is taken as
  the exact quotient.
\<close>

definition py_round :: "real \<Rightarrow> int" where
  "py_round x =
     (let f = \<lfloor>x\<rfloor>; d = x - of_int f
      in if d < 1 / 2 then f
         else if d > 1 / 2 then f + 1
         else if even f then f else f + 1)"

definition quantize :: "int \<Rightarrow> int" where
  "quantize offset =
     py_round (of_int offset / of_int TIME_ALIGNMENT_TOLERANCE) * TIME_ALIGNMENT_TOLERANCE"

text \<open>
  \<open>collections.Counter\<close>: the keys in the order of their first occurrence, each with its
  count.  \<open>most_common(1)[0]\<close> is \<open>max\<close> by count, which keeps the first of several
  maxima.
\<close>

fun counter_add :: "int \<Rightarrow> (int \<times> nat) list \<Rightarrow> (int \<times> nat) list" where
  "counter_add x [] = [(x, 1)]"
| "counter_add x ((y, n) # c) = (if x = y then (y, n + 1) # c else (y, n) # counter_add x c)"

definition Counter :: "int list \<Rightarrow> (int \<times> nat) list" where
  "Counter xs = fold counter_add xs []"

definition max_by_count :: "(int \<times> nat) \<Rightarrow> (int \<times> nat) list \<Rightarrow> int \<times> nat" where
  "max_by_count e es = fold (\<lambda>x best. if snd best < snd x then x else best) es e"

text \<open>
  \<open>_find_best_alignment\<close>.  The ratios are compared as real numbers.  A counter built
  from a non-empty list is non-empty, so the \<open>IndexError\<close> of \<open>most_common(1)[0]\<close> cannot
  occur; its branch returns None.
\<close>

definition find_best_alignment :: "int list \<Rightarrow> (int \<times> nat) option" where
  "find_best_alignment time_offsets =
     (if time_offsets = [] then None
      else
        (case Counter (map quantize time_offsets) of
           [] \<Rightarrow> None
         | e # es \<Rightarrow>
             (let (best_offset, best_count) = max_by_count e es;
                  alignment_ratio = real best_count / real (length time_offsets);
                  unique_ratio =
                    real (card (set time_offsets)) / real (length time_offsets);
                  min_alignment = (if unique_ratio < 0.3 then 0.05 else 0.3)
              in if alignment_ratio < min_alignment then None
                 else Some (best_offset, best_count))))"

definition analyze_song_match ::
  "database \<Rightarrow> nat \<Rightarrow> matched_occurrence list \<Rightarrow> nat \<Rightarrow> MatchResult option"
where
  "analyze_song_match db sid occurrences n_query_hashes =
     (if length occurrences < MIN_MATCHING_HASHES then None
      else
        (let time_offsets = map (\<lambda>occ. occ_time_offset occ - query_time occ) occurrences
         in case find_best_alignment time_offsets of
              None \<Rightarrow> None
            | Some (best_offset, aligned_count) \<Rightarrow>
                (let conf = calculate_confidence aligned_count (length occurrences)
                              n_query_hashes
                 in case get_song_metadata db sid of
                      None \<Rightarrow> None
                    | Some song_metadata \<Rightarrow>
                        Some \<lparr>song_id = sid,
                              title = row_title song_metadata,
                              artist = row_artist song_metadata,
                              album = row_album song_metadata,
                              confidence = conf,
                              matching_hashes = aligned_count,
                              total_query_hashes = n_query_hashes,
                              match_time_offset = best_offset,
                              alignment_strength =
                                real aligned_count / real (length occurrences)\<rparr>)))"

text \<open>
  \<open>find_matches\<close>: the candidates in the order of the search result, filtered, then
  sorted by descending confidence (\<open>list.sort\<close> with \<open>reverse=True\<close> is stable).
\<close>

definition candidate_result ::
  "database \<Rightarrow> nat \<Rightarrow> nat \<Rightarrow> nat \<times> matched_occurrence list \<Rightarrow> MatchResult option"
where
  "candidate_result db min_matches n_query_hashes entry =
     (case entry of (sid, occurrences) \<Rightarrow>
        if length occurrences < min_matches then None
        else (case analyze_song_match db sid occurrences n_query_hashes of
                None \<Rightarrow> None
              | Some match_result \<Rightarrow>
                  if confidence match_result \<ge> CONFIDENCE_THRESHOLD
                  then Some match_result else None))"

definition find_matches :: "database \<Rightarrow> AudioHash list \<Rightarrow> nat \<Rightarrow> MatchResult list" where
  "find_matches db query_hashes min_matches =
     (if query_hashes = [] then []
      else
        (let raw_matches = search_fingerprints db query_hashes
         in if raw_matches = [] then []
            else sort_key (\<lambda>m. - confidence m)
                   (List.map_filter
                      (candidate_result db min_matches (length query_hashes))
                      raw_matches)))"

definition identify_best_match :: "database \<Rightarrow> AudioHash list \<Rightarrow> MatchResult option" where
  "identify_best_match db query_hashes =
     (case find_matches db query_hashes MIN_MATCHING_HASHES of
        [] \<Rightarrow> None
      | best_match # others \<Rightarrow> Some best_match)"

section \<open>Orchestrator: identification (src/src/shazam_system.py)\<close>

text \<open>
  \<open>identify_audio_file\<close>, from the outcome of loading, preprocessing and fingerprinting
  the query.
\<close>

definition identify_audio_file ::
  "database \<Rightarrow> (py_error + AudioHash list) \<Rightarrow> MatchResult option"
where
  "identify_audio_file db pipeline =
     (case pipeline of
        Inl e \<Rightarrow> None
      | Inr query_hashes \<Rightarrow>
          if query_hashes = [] then None else identify_best_match db query_hashes)"

text \<open>The operations that change the stores, and a run of them.\<close>

datatype db_op =
  AddSong fault string string string "AudioHash list" "string option" "real option"
    "nat option"
  | RemoveSong nat

fun run_op :: "db_op \<Rightarrow> database \<Rightarrow> database" where
  "run_op (AddSong fault t a file_path fps al du fs) db =
     fst (add_song fault db t a file_path fps al du fs)"
| "run_op (RemoveSong sid) db = fst (remove_song db sid)"

definition run_ops :: "db_op list \<Rightarrow> database \<Rightarrow> database" where
  "run_ops ops db = fold run_op ops db"

section \<open>Preprocessing (src/src/audio_processing.py)\<close>

text \<open>
  A numpy array of samples: one-dimensional, or two-dimensional as a list of rows.
  \<open>np.mean(audio, axis=0)\<close> averages the rows position by position.
\<close>

datatype ndarray = Mono "real list" | Rows "real list list"

definition mean_axis0 :: "real list list \<Rightarrow> real list" where
  "mean_axis0 rows =
     (case rows of
        [] \<Rightarrow> []
      | r # rs \<Rightarrow> map (\<lambda>j. (\<Sum>row\<leftarrow>rows. row ! j) / real (length rows)) [0..<length r])"

text \<open>
  The scipy resamplers are library code and may raise; they are fields of the
  environment, together with the flag \<open>HAVE_SCIPY\<close>.
\<close>

record scipy_signal =
  HAVE_SCIPY :: bool
  resample_poly :: "real list \<Rightarrow> nat \<Rightarrow> nat \<Rightarrow> py_error + real list"
  resample :: "real list \<Rightarrow> nat \<Rightarrow> py_error + real list"

text \<open>
  \<open>AudioProcessor.preprocess_audio\<close>.  Both resampling attempts sit in \<open>try\<close> blocks
  whose handlers keep the audio as it is (the division by \<open>sr = 0\<close> in the fallback is
  caught by the inner handler).  Nothing checks the length of the input.
\<close>

definition preprocess_audio ::
  "scipy_signal \<Rightarrow> nat \<Rightarrow> ndarray \<Rightarrow> nat \<Rightarrow> py_error + real list"
where
  "preprocess_audio lib sample_rate audio sr =
     (let audio1 = (case audio of Mono xs \<Rightarrow> xs | Rows rows \<Rightarrow> mean_axis0 rows);
          audio2 =
            (if sr \<noteq> sample_rate \<and> HAVE_SCIPY lib then
               (case resample_poly lib audio1 (sample_rate div gcd sr sample_rate)
                       (sr div gcd sr sample_rate) of
                  Inr resampled \<Rightarrow> resampled
                | Inl e \<Rightarrow>
                    (if sr = 0 then audio1
                     else (case resample lib audio1 (length audio1 * sample_rate div sr) of
                             Inr resampled \<Rightarrow> resampled
                           | Inl e2 \<Rightarrow> audio1)))
             else audio1);
          max_samples = MAX_QUERY_DURATION * sample_rate
      in Inr (if length audio2 > max_samples then take max_samples audio2 else audio2))"

section \<open>Auxiliary notions and sample inputs\<close>

text \<open>
  The local maxima of a frame that pass the height condition of \<open>find_peaks\<close>, before the
  distance condition: the maxima at or above \<open>MIN_PEAK_AMPLITUDE\<close>.
\<close>

definition qualified_maxima :: "real list \<Rightarrow> nat list" where
  "qualified_maxima x = filter (\<lambda>p. MIN_PEAK_AMPLITUDE \<le> x ! p) (local_maxima_1d x)"

text \<open>
  Two maxima are near each other when the distance loops of
  \<open>_select_by_peak_distance\<close>, run from one of them, would reach the other.
\<close>

definition near :: "nat list \<Rightarrow> nat \<Rightarrow> nat \<Rightarrow> nat \<Rightarrow> bool" where
  "near peaks distance j k \<longleftrightarrow>
     (k < j \<and> int (peaks ! j) - int (peaks ! k) < int distance)
     \<or> (j < k \<and> int (peaks ! k) - int (peaks ! j) < int distance)"

text \<open>
  A maximum is settled in a keep mask when it is kept and every maximum near it has been
  removed: no later pass of the distance loops can remove it.
\<close>

definition settled :: "nat list \<Rightarrow> nat \<Rightarrow> bool list \<Rightarrow> nat \<Rightarrow> bool" where
  "settled peaks d keep j \<longleftrightarrow>
     keep ! j \<and> (\<forall>m < length peaks. near peaks d j m \<longrightarrow> \<not> keep ! m)"

text \<open>
  Two argsorts that meet \<open>is_argsort\<close>: one lists equal values in ascending index order
  (a stable sort), the other in descending index order.
\<close>

definition stable_argsort :: "real list \<Rightarrow> nat list" where
  "stable_argsort priority = sort_key (\<lambda>j. priority ! j) [0..<length priority]"

definition ties_descending_argsort :: "real list \<Rightarrow> nat list" where
  "ties_descending_argsort priority =
     sort_key (\<lambda>j. (priority ! j, - int j)) [0..<length priority]"

text \<open>
  Sample inputs.  In \<open>edge_frame\<close>, eight frequency bins, the largest magnitude sits in
  bin 5, the last bin of the band (1, 6).  \<open>sample_spectrogram\<close> has two frames of
  eighteen bins.
\<close>

definition edge_frame :: "real list" where
  "edge_frame = [0, 0, 1, 0, 0, 3, 0, 0]"

definition sample_spectrogram :: spectrogram where
  "sample_spectrogram =
     [[0, 2, 1, 2, 0, 1, 0, 1, 0,  0, 3, 0, 0, 0, 0, 0, 3, 0],
      [0, 0, 0, 0, 4, 0, 0, 0, 0,  0, 0, 0, 0, 0, 0, 0, 0, 0]]"

text \<open>
  A constellation with one peak in each of four bands at every frame: \<open>grid_peaks n\<close> has
  \<open>n\<close> frames, that is \<open>4 * n\<close> peaks.
\<close>

definition four_band_frame :: "nat \<Rightarrow> SpectralPeak list" where
  "four_band_frame t =
     map (\<lambda>b. \<lparr>frequency_bin = b, time_frame = int t, amplitude = 1\<rparr>) [30, 60, 100, 150]"

fun grid_from :: "nat \<Rightarrow> nat \<Rightarrow> SpectralPeak list" where
  "grid_from t 0 = []"
| "grid_from t (Suc k) = four_band_frame t @ grid_from (Suc t) k"

definition grid_peaks :: "nat \<Rightarrow> SpectralPeak list" where
  "grid_peaks n = grid_from 0 n"

text \<open>
  Sample database contents: one song with a single hash, and two songs A (id 1) and B
  (id 2) that were ingested from the same three hashes.
\<close>

definition demo_hash :: AudioHash where
  "demo_hash = \<lparr>hash_value = ''0123456789abcdef'', time_offset = 3, anchor_freq = 30,
                 target_freq = 45, time_delta = 7\<rparr>"

definition one_song_db :: database where
  "one_song_db =
     fst (add_song NoFault (init_database True) ''A440'' ''Test'' ''/music/a440.wav''
            [demo_hash] None (Some 10) None)"

definition demo_hashes :: "AudioHash list" where
  "demo_hashes =
     [\<lparr>hash_value = ''aaaaaaaaaaaaaaaa'', time_offset = 3, anchor_freq = 30,
        target_freq = 45, time_delta = 7\<rparr>,
      \<lparr>hash_value = ''bbbbbbbbbbbbbbbb'', time_offset = 5, anchor_freq = 31,
        target_freq = 46, time_delta = 8\<rparr>,
      \<lparr>hash_value = ''cccccccccccccccc'', time_offset = 9, anchor_freq = 32,
        target_freq = 47, time_delta = 9\<rparr>]"

definition two_song_db :: database where
  "two_song_db =
     run_ops
       [AddSong NoFault ''A440'' ''Test'' ''/music/a440.wav'' demo_hashes None (Some 10) None,
        AddSong NoFault ''B'' ''Test'' ''/music/b.wav'' demo_hashes None (Some 10) None]
       (init_database True)"

text \<open>A scipy whose resamplers raise on every call.\<close>

definition failing_scipy :: scipy_signal where
  "failing_scipy =
     \<lparr>HAVE_SCIPY = True,
      resample_poly = (\<lambda>audio up down. Inl ResampleError),
      resample = (\<lambda>audio num. Inl ResampleError)\<rparr>"

text \<open>
  The invariant of the metadata store that AUTOINCREMENT maintains: no row holds an id
  above the recorded sequence value.
\<close>

definition ids_bounded :: "database \<Rightarrow> bool" where
  "ids_bounded db \<longleftrightarrow> (\<forall>r \<in> set (songs db). row_id r \<le> sqlite_sequence db)"

section \<open>Properties of the confidence score\<close>

lemma raw_strength_nonneg: "0 \<le> min 1 (ln (real a + 1) / ln 20)"
proof -
  have "0 \<le> ln (real a + 1)" by simp
  moreover have "0 < ln (20::real)" by simp
  ultimately have "0 \<le> ln (real a + 1) / ln 20" by simp
  then show ?thesis by simp
qed

text \<open>
  Claim C4, as stated, fails: with one aligned hash, a bucket of ten and two query hashes
  the code's uniqueness bonus is floored at \<open>0.5\<close> while the stated formula gives
  \<open>0.2\<close>, so the two scores differ by \<open>0.03\<close>.
\<close>

theorem C4_counterexample:
  "calculate_confidence 1 10 2 \<noteq> spec_confidence 1 10 2"
proof -
  define r :: real where "r = min 1 (ln (real 1 + 1) / ln 20)"
  have r0: "0 \<le> r" unfolding r_def by (rule raw_strength_nonneg)
  have r1: "r \<le> 1" unfolding r_def by simp
  have code: "calculate_confidence 1 10 2 = min 1 (0.29 + 0.3 * r)"
    by (simp add: calculate_confidence_def Let_def r_def)
  have spec: "spec_confidence 1 10 2 = max 0 (min 1 (0.26 + 0.3 * r))"
    by (simp add: spec_confidence_def r_def)
  from r0 r1 have "min 1 (0.29 + 0.3 * r) = 0.29 + 0.3 * r"
    and "max 0 (min 1 (0.26 + 0.3 * r)) = 0.26 + 0.3 * r"
    by simp_all
  with code spec show ?thesis by simp
qed

text \<open>
  Claim C4, amended: for a non-empty bucket (\<open>m > 0\<close>) and a non-empty query
  (\<open>q > 0\<close>) the score is
  \<open>min(1, 0.4 * (a / m) + 0.3 * min(1, ln(a + 1) / ln 20) + 0.2 * min(1, m / q) + 0.1 * u)\<close>
  where \<open>u = max(0.5, q / m)\<close> if \<open>m > q\<close> and \<open>u = 1\<close> otherwise, and it lies in
  \<open>[0, 1]\<close>.
\<close>

theorem C4_confidence_formula:
  assumes "0 < m" and "0 < q"
  shows "calculate_confidence a m q =
           min 1 (0.4 * (real a / real m)
                  + 0.3 * min 1 (ln (real a + 1) / ln 20)
                  + 0.2 * min 1 (real m / real q)
                  + 0.1 * (if m > q then max (1/2) (real q / real m) else 1))
         \<and> 0 \<le> calculate_confidence a m q
         \<and> calculate_confidence a m q \<le> 1"
proof -
  let ?u = "if m > q then max (1/2) (real q / real m) else (1::real)"
  let ?c = "0.4 * (real a / real m) + 0.3 * min 1 (ln (real a + 1) / ln 20)
            + 0.2 * min 1 (real m / real q) + 0.1 * ?u"
  have eq: "calculate_confidence a m q = min 1 ?c"
    using assms by (simp add: calculate_confidence_def Let_def ac_simps)
  have "0 \<le> real a / real m" by simp
  moreover have "0 \<le> min 1 (real m / real q)" by simp
  moreover have "0 \<le> ?u" by (simp add: max_def)
  moreover note raw_strength_nonneg [of a]
  ultimately have "0 \<le> ?c" by simp
  then have "0 \<le> min 1 ?c" by simp
  moreover have "min 1 ?c \<le> 1" by simp
  ultimately show ?thesis using eq by simp
qed

theorem C4_confidence_formula_witness:
  "(0::nat) < 10 \<and> (0::nat) < 2
   \<and> calculate_confidence 1 10 2 = min 1 (0.29 + 0.3 * min 1 (ln 2 / ln 20))
   \<and> 0 \<le> calculate_confidence 1 10 2 \<and> calculate_confidence 1 10 2 \<le> 1"
  using C4_confidence_formula [of 10 2 1] by simp

section \<open>Properties of peak picking\<close>

subsection \<open>Local maxima lie strictly inside the frame and come in ascending order\<close>

lemma look_ahead_le: "i_ahead \<le> i_max \<Longrightarrow> look_ahead x i i_max i_ahead \<le> i_max"
proof (induction x i i_max i_ahead rule: look_ahead.induct)
  case (1 x i i_max i_ahead)
  show ?case
  proof (cases "i_ahead < i_max \<and> x ! i_ahead = x ! i")
    case True
    with 1 have "look_ahead x i i_max (i_ahead + 1) \<le> i_max" by simp
    with True show ?thesis by (subst look_ahead.simps) simp
  next
    case False
    with "1.prems" show ?thesis by (subst look_ahead.simps) auto
  qed
qed

lemma local_maxima_from_bounds:
  "p \<in> set (local_maxima_from x i) \<Longrightarrow> i \<le> p \<and> p + 1 < length x"
proof (induction x i rule: local_maxima_from.induct)
  case (1 x i)
  let ?la = "look_ahead x i (length x - 1) (i + 1)"
  note eq = local_maxima_from.simps [of x i]
  show ?case
  proof (cases "i < length x - 1")
    case False
    with "1.prems" show ?thesis unfolding eq by simp
  next
    case in_range: True
    have ge: "i + 1 \<le> ?la" by (rule look_ahead_ge)
    have le: "?la \<le> length x - 1" using in_range by (intro look_ahead_le) simp
    show ?thesis
    proof (cases "x ! (i - 1) < x ! i")
      case False
      with in_range "1.prems" have "p \<in> set (local_maxima_from x (i + 1))"
        unfolding eq by simp
      with "1.IH"(3) in_range False show ?thesis by fastforce
    next
      case rise: True
      show ?thesis
      proof (cases "x ! ?la < x ! i")
        case False
        with in_range rise "1.prems" have "p \<in> set (local_maxima_from x (i + 1))"
          unfolding eq by simp
        with "1.IH"(2) in_range rise False show ?thesis by fastforce
      next
        case fall: True
        with in_range rise "1.prems"
        have "p = (i + (?la - 1)) div 2 \<or> p \<in> set (local_maxima_from x (?la + 1))"
          unfolding eq by simp
        then show ?thesis
        proof
          assume "p = (i + (?la - 1)) div 2"
          with ge le in_range show ?thesis by auto
        next
          assume "p \<in> set (local_maxima_from x (?la + 1))"
          with "1.IH"(1) in_range rise fall have "?la + 1 \<le> p \<and> p + 1 < length x" by simp
          with ge show ?thesis by simp
        qed
      qed
    qed
  qed
qed

lemma local_maxima_from_sorted: "sorted_wrt (<) (local_maxima_from x i)"
proof (induction x i rule: local_maxima_from.induct)
  case (1 x i)
  let ?la = "look_ahead x i (length x - 1) (i + 1)"
  note eq = local_maxima_from.simps [of x i]
  have ge: "i + 1 \<le> ?la" by (rule look_ahead_ge)
  have "\<forall>q \<in> set (local_maxima_from x (?la + 1)). (i + (?la - 1)) div 2 < q"
  proof
    fix q assume "q \<in> set (local_maxima_from x (?la + 1))"
    then have "?la + 1 \<le> q" using local_maxima_from_bounds by blast
    with ge show "(i + (?la - 1)) div 2 < q" by simp
  qed
  with "1.IH" show ?case unfolding eq by simp
qed

subsection \<open>Masks and the distance condition\<close>

lemma near_sym: "near peaks distance j k \<longleftrightarrow> near peaks distance k j"
  by (auto simp: near_def)

lemma mask_select_subset: "set (mask_select xs keep) \<subseteq> set xs"
  by (auto simp: mask_select_def dest: set_zip_leftD)

lemma mask_select_nth:
  "j < length xs \<Longrightarrow> j < length keep \<Longrightarrow> keep ! j \<Longrightarrow> xs ! j \<in> set (mask_select xs keep)"
proof -
  assume a: "j < length xs" "j < length keep" "keep ! j"
  then have "(xs ! j, keep ! j) \<in> set (zip xs keep)"
    by (auto simp: set_zip)
  with a(3) have "(xs ! j, True) \<in> set (filter snd (zip xs keep))" by simp
  then show ?thesis unfolding mask_select_def by force
qed

lemma mask_select_sorted_wrt:
  "sorted_wrt P xs \<Longrightarrow> sorted_wrt P (mask_select xs keep)"
proof (induction xs arbitrary: keep)
  case Nil
  then show ?case by (simp add: mask_select_def)
next
  case (Cons x xs)
  show ?case
  proof (cases keep)
    case Nil
    then show ?thesis by (simp add: mask_select_def)
  next
    case (Cons b bs)
    have tl: "sorted_wrt P (mask_select xs bs)" using Cons.IH Cons.prems by simp
    have "\<forall>y \<in> set (mask_select xs bs). P x y"
      using Cons.prems mask_select_subset [of xs bs] by auto
    with tl Cons show ?thesis by (auto simp: mask_select_def)
  qed
qed

lemma mask_select_property:
  "mask_select xs (select_by_property (map f xs) pmin) = filter (\<lambda>p. pmin \<le> f p) xs"
  by (induction xs) (auto simp: mask_select_def select_by_property_def)

lemma flag_earlier_length: "length (flag_earlier peaks d j m keep) = length keep"
  by (induction m arbitrary: keep) auto

lemma flag_earlier_unchanged:
  "\<not> (k < m \<and> int (peaks ! j) - int (peaks ! k) < int d) \<Longrightarrow>
   flag_earlier peaks d j m keep ! k = keep ! k"
proof (induction m arbitrary: keep)
  case 0
  then show ?case by simp
next
  case (Suc m)
  show ?case
  proof (cases "int (peaks ! j) - int (peaks ! m) < int d")
    case False
    then show ?thesis by simp
  next
    case True
    with Suc.prems have "k \<noteq> m" by auto
    moreover from Suc.prems have "\<not> (k < m \<and> int (peaks ! j) - int (peaks ! k) < int d)" by auto
    ultimately show ?thesis using Suc.IH True by simp
  qed
qed

lemma flag_earlier_mono:
  "k < length keep \<Longrightarrow> flag_earlier peaks d j m keep ! k \<Longrightarrow> keep ! k"
proof (induction m arbitrary: keep)
  case 0
  then show ?case by simp
next
  case (Suc m)
  show ?case
  proof (cases "int (peaks ! j) - int (peaks ! m) < int d")
    case False
    with Suc.prems show ?thesis by simp
  next
    case True
    with Suc.prems have "flag_earlier peaks d j m (keep[m := False]) ! k" by simp
    with Suc.IH [of "keep[m := False]"] Suc.prems(1) have "keep[m := False] ! k" by simp
    then show ?thesis by (cases "k = m") (use Suc.prems(1) in auto)
  qed
qed

lemma flag_earlier_flags:
  "k < m \<Longrightarrow> m \<le> length keep \<Longrightarrow>
   (\<forall>k'. k \<le> k' \<and> k' < m \<longrightarrow> int (peaks ! j) - int (peaks ! k') < int d) \<Longrightarrow>
   \<not> flag_earlier peaks d j m keep ! k"
proof (induction m arbitrary: keep)
  case 0
  then show ?case by simp
next
  case (Suc m)
  from Suc.prems have c: "int (peaks ! j) - int (peaks ! m) < int d" by simp
  show ?case
  proof (cases "k = m")
    case True
    have "flag_earlier peaks d j m (keep[m := False]) ! m = (keep[m := False]) ! m"
      by (rule flag_earlier_unchanged) simp
    with True c Suc.prems(2) show ?thesis by simp
  next
    case False
    with Suc.prems have "k < m" "m \<le> length (keep[m := False])"
      "\<forall>k'. k \<le> k' \<and> k' < m \<longrightarrow> int (peaks ! j) - int (peaks ! k') < int d"
      by auto
    from Suc.IH [OF this] c show ?thesis by simp
  qed
qed

lemma flag_later_length: "length (flag_later peaks d j k keep) = length keep"
proof (induction peaks d j k keep rule: flag_later.induct)
  case (1 peaks d j k keep)
  then show ?case by (subst flag_later.simps) auto
qed

lemma flag_later_unchanged:
  "\<not> (m \<le> k \<and> int (peaks ! k) - int (peaks ! j) < int d) \<Longrightarrow>
   flag_later peaks d j m keep ! k = keep ! k"
proof (induction peaks d j m keep rule: flag_later.induct)
  case (1 peaks d j m keep)
  show ?case
  proof (cases "m < length peaks \<and> int (peaks ! m) - int (peaks ! j) < int d")
    case False
    then show ?thesis by (subst flag_later.simps) auto
  next
    case True
    with "1.prems" have "k \<noteq> m" by auto
    moreover from "1.prems" have "\<not> (m + 1 \<le> k \<and> int (peaks ! k) - int (peaks ! j) < int d)"
      by auto
    ultimately have "flag_later peaks d j (m + 1) (keep[m := False]) ! k = keep ! k"
      using "1.IH" True by simp
    with True show ?thesis by (subst flag_later.simps) simp
  qed
qed

lemma flag_later_mono:
  "k < length keep \<Longrightarrow> flag_later peaks d j m keep ! k \<Longrightarrow> keep ! k"
proof (induction peaks d j m keep rule: flag_later.induct)
  case (1 peaks d j m keep)
  show ?case
  proof (cases "m < length peaks \<and> int (peaks ! m) - int (peaks ! j) < int d")
    case False
    with "1.prems" show ?thesis by (subst (asm) flag_later.simps) auto
  next
    case True
    with "1.prems"(2) have "flag_later peaks d j (m + 1) (keep[m := False]) ! k"
      by (subst (asm) flag_later.simps) simp
    with "1.IH" True "1.prems"(1) have "keep[m := False] ! k" by simp
    then show ?thesis by (cases "k = m") (use "1.prems"(1) in auto)
  qed
qed

lemma flag_later_flags:
  "m \<le> k \<Longrightarrow> k < length peaks \<Longrightarrow> length keep = length peaks \<Longrightarrow>
   (\<forall>k'. m \<le> k' \<and> k' \<le> k \<longrightarrow> int (peaks ! k') - int (peaks ! j) < int d) \<Longrightarrow>
   \<not> flag_later peaks d j m keep ! k"
proof (induction peaks d j m keep rule: flag_later.induct)
  case (1 peaks d j m keep)
  from "1.prems" have c: "m < length peaks \<and> int (peaks ! m) - int (peaks ! j) < int d"
    by auto
  show ?case
  proof (cases "k = m")
    case True
    have "flag_later peaks d j (m + 1) (keep[m := False]) ! m = (keep[m := False]) ! m"
      by (rule flag_later_unchanged) simp
    with True c "1.prems"(3) show ?thesis by (subst flag_later.simps) simp
  next
    case False
    with "1.prems" have "m + 1 \<le> k" "k < length peaks"
      "length (keep[m := False]) = length peaks"
      "\<forall>k'. m + 1 \<le> k' \<and> k' \<le> k \<longrightarrow> int (peaks ! k') - int (peaks ! j) < int d"
      by auto
    from "1.IH" [OF c this] c show ?thesis by (subst flag_later.simps) simp
  qed
qed

lemma select_step_keeps:
  assumes len: "length keep = length peaks"
    and j0: "j0 < length peaks"
    and kj: "keep ! j0"
    and far: "j = j0 \<or> \<not> near peaks d j0 j"
  shows "flag_later peaks d j (j + 1) (flag_earlier peaks d j j keep) ! j0"
proof -
  have e: "flag_earlier peaks d j j keep ! j0 = keep ! j0"
    using far by (subst flag_earlier_unchanged) (auto simp: near_def)
  have "flag_later peaks d j (j + 1) (flag_earlier peaks d j j keep) ! j0
        = flag_earlier peaks d j j keep ! j0"
    using far by (subst flag_later_unchanged) (auto simp: near_def)
  with e kj show ?thesis by simp
qed

lemma select_step_mono:
  assumes "k < length keep"
    and "flag_later peaks d j (j + 1) (flag_earlier peaks d j j keep) ! k"
  shows "keep ! k"
proof -
  from assms have "flag_earlier peaks d j j keep ! k"
    by (auto intro: flag_later_mono [of k "flag_earlier peaks d j j keep" peaks d j "j + 1"]
             simp: flag_earlier_length)
  with assms(1) show ?thesis by (rule flag_earlier_mono)
qed

lemma select_step_flags:
  assumes srt: "sorted peaks"
    and len: "length keep = length peaks"
    and j: "j < length peaks" and k: "k < length peaks"
    and nr: "near peaks d j k"
  shows "\<not> flag_later peaks d j (j + 1) (flag_earlier peaks d j j keep) ! k"
proof (cases "k < j")
  case True
  with nr have c: "int (peaks ! j) - int (peaks ! k) < int d" by (auto simp: near_def)
  have al: "\<forall>k'. k \<le> k' \<and> k' < j \<longrightarrow> int (peaks ! j) - int (peaks ! k') < int d"
  proof (intro allI impI)
    fix k' assume "k \<le> k' \<and> k' < j"
    with srt j have "peaks ! k \<le> peaks ! k'" by (auto intro!: sorted_nth_mono)
    with c show "int (peaks ! j) - int (peaks ! k') < int d" by simp
  qed
  have "\<not> flag_earlier peaks d j j keep ! k"
  proof (rule flag_earlier_flags)
    show "k < j" by fact
    show "j \<le> length keep" using j len by simp
    show "\<forall>k'. k \<le> k' \<and> k' < j \<longrightarrow> int (peaks ! j) - int (peaks ! k') < int d"
      by (rule al)
  qed
  moreover have "k < length (flag_earlier peaks d j j keep)"
    using k len by (simp add: flag_earlier_length)
  ultimately show ?thesis using flag_later_mono by blast
next
  case False
  with nr have jk: "j < k" and c: "int (peaks ! k) - int (peaks ! j) < int d"
    by (auto simp: near_def)
  have al: "\<forall>k'. j + 1 \<le> k' \<and> k' \<le> k \<longrightarrow> int (peaks ! k') - int (peaks ! j) < int d"
  proof (intro allI impI)
    fix k' assume "j + 1 \<le> k' \<and> k' \<le> k"
    with srt k have "peaks ! k' \<le> peaks ! k" by (auto intro!: sorted_nth_mono)
    with c show "int (peaks ! k') - int (peaks ! j) < int d" by simp
  qed
  show ?thesis
  proof (rule flag_later_flags)
    show "j + 1 \<le> k" using jk by simp
    show "k < length peaks" by fact
    show "length (flag_earlier peaks d j j keep) = length peaks"
      using len by (simp add: flag_earlier_length)
    show "\<forall>k'. j + 1 \<le> k' \<and> k' \<le> k \<longrightarrow> int (peaks ! k') - int (peaks ! j) < int d"
      by (rule al)
  qed
qed

lemma select_loop_length:
  "length (select_loop peaks d js keep) = length keep"
  by (induction js arbitrary: keep) (auto simp: flag_later_length flag_earlier_length)

lemma select_loop_keeps:
  assumes "length keep = length peaks" and "j0 < length peaks"
    and "keep ! j0"
    and "\<forall>k < length peaks. near peaks d j0 k \<longrightarrow> \<not> keep ! k"
    and "\<forall>j \<in> set js. j < length peaks"
  shows "select_loop peaks d js keep ! j0"
  using assms
proof (induction js arbitrary: keep)
  case Nil
  then show ?case by simp
next
  case (Cons j js)
  show ?case
  proof (cases "keep ! j")
    case False
    with Cons show ?thesis by simp
  next
    case True
    let ?keep' = "flag_later peaks d j (j + 1) (flag_earlier peaks d j j keep)"
    from Cons.prems have jlt: "j < length peaks" by simp
    have far: "j = j0 \<or> \<not> near peaks d j0 j"
      using Cons.prems(4) jlt True by blast
    have 1: "length ?keep' = length peaks"
      using Cons.prems(1) by (simp add: flag_later_length flag_earlier_length)
    have 2: "?keep' ! j0"
      using Cons.prems(1,2,3) far by (rule select_step_keeps)
    have 3: "\<forall>k < length peaks. near peaks d j0 k \<longrightarrow> \<not> ?keep' ! k"
      using Cons.prems(1,4) select_step_mono [of _ keep peaks d j] by auto
    have 4: "\<forall>j \<in> set js. j < length peaks" using Cons.prems(5) by simp
    from Cons.IH [OF 1 Cons.prems(2) 2 3 4] True show ?thesis by simp
  qed
qed

lemma is_argsort_set:
  "is_argsort argsort \<Longrightarrow> set (argsort priority) = {0..<length priority}"
proof -
  assume "is_argsort argsort"
  then have "mset (argsort priority) = mset [0..<length priority]"
    by (simp add: is_argsort_def)
  then have "set (argsort priority) = set [0..<length priority]" by (rule mset_eq_setD)
  then show ?thesis by simp
qed

lemma is_argsort_length:
  "is_argsort argsort \<Longrightarrow> length (argsort priority) = length priority"
proof -
  assume "is_argsort argsort"
  then have "mset (argsort priority) = mset [0..<length priority]"
    by (simp add: is_argsort_def)
  then have "length (argsort priority) = length [0..<length priority]"
    by (rule mset_eq_length)
  then show ?thesis by simp
qed

lemma argsort_last_max:
  assumes valid: "is_argsort argsort"
    and "priority \<noteq> []" and "k < length priority"
  shows "priority ! k \<le> priority ! last (argsort priority)"
proof -
  let ?xs = "argsort priority"
  have srt: "sorted (map (\<lambda>j. priority ! j) ?xs)"
    using valid by (simp add: is_argsort_def)
  have ne: "?xs \<noteq> []" using assms(2) is_argsort_length [OF valid, of priority] by auto
  from assms(3) have "k \<in> set ?xs" by (simp add: is_argsort_set [OF valid])
  then obtain i where i: "i < length ?xs" "?xs ! i = k" by (auto simp: in_set_conv_nth)
  with ne have "map (\<lambda>j. priority ! j) ?xs ! i \<le> map (\<lambda>j. priority ! j) ?xs ! (length ?xs - 1)"
    using sorted_nth_mono [OF srt, of i "length ?xs - 1"] by simp
  with i ne show ?thesis by (simp add: last_conv_nth)
qed

lemma select_by_peak_distance_length:
  "length (select_by_peak_distance argsort peaks priority d) = length peaks"
  by (simp add: select_by_peak_distance_def select_loop_length)

lemma select_by_peak_distance_top:
  assumes valid: "is_argsort argsort"
    and srt: "sorted peaks" and ne: "peaks \<noteq> []" and len: "length priority = length peaks"
  shows "last (argsort priority) < length peaks
         \<and> select_by_peak_distance argsort peaks priority d ! last (argsort priority)"
proof -
  let ?j0 = "last (argsort priority)"
  let ?all = "replicate (length peaks) True"
  let ?keep = "flag_later peaks d ?j0 (?j0 + 1) (flag_earlier peaks d ?j0 ?j0 ?all)"
  have pne: "argsort priority \<noteq> []"
    using ne len is_argsort_length [OF valid, of priority] by auto
  then have "?j0 \<in> set (argsort priority)" by simp
  then have j0: "?j0 < length peaks" using len by (simp add: is_argsort_set [OF valid])
  from pne have rv: "rev (argsort priority) = ?j0 # rev (butlast (argsort priority))"
    using arg_cong [OF append_butlast_last_id [OF pne], of rev] by simp
  have bl: "\<forall>j \<in> set (rev (butlast (argsort priority))). j < length peaks"
    using len is_argsort_set [OF valid, of priority] by (auto dest: in_set_butlastD)
  have 1: "length ?keep = length peaks"
    by (simp add: flag_later_length flag_earlier_length)
  have 2: "?keep ! ?j0"
    by (rule select_step_keeps) (use j0 in auto)
  have 3: "\<forall>k < length peaks. near peaks d ?j0 k \<longrightarrow> \<not> ?keep ! k"
    using select_step_flags [OF srt _ j0] by simp
  have "select_loop peaks d (rev (butlast (argsort priority))) ?keep ! ?j0"
    using 1 j0 2 3 bl by (rule select_loop_keeps)
  moreover have "select_by_peak_distance argsort peaks priority d
                 = select_loop peaks d (rev (butlast (argsort priority))) ?keep"
    using j0 by (simp add: select_by_peak_distance_def rv)
  ultimately show ?thesis using j0 by simp
qed

lemma select_loop_mono:
  "i < length keep \<Longrightarrow> select_loop peaks d js keep ! i \<Longrightarrow> keep ! i"
proof (induction js arbitrary: keep)
  case Nil
  then show ?case by simp
next
  case (Cons a js)
  show ?case
  proof (cases "keep ! a")
    case False
    with Cons show ?thesis by simp
  next
    case True
    let ?keep' = "flag_later peaks d a (a + 1) (flag_earlier peaks d a a keep)"
    have len: "length ?keep' = length keep"
      by (simp add: flag_later_length flag_earlier_length)
    from Cons.prems(2) True have "select_loop peaks d js ?keep' ! i" by simp
    with Cons.IH [of ?keep'] Cons.prems(1) len have "?keep' ! i" by simp
    with Cons.prems(1) show ?thesis by (rule select_step_mono)
  qed
qed

lemma select_loop_separated:
  assumes "sorted peaks" and "length keep = length peaks"
    and "\<forall>j \<in> set js. j < length peaks"
    and "j \<in> set js" and "k < length peaks" and "near peaks d j k"
    and "select_loop peaks d js keep ! j"
  shows "\<not> select_loop peaks d js keep ! k"
  using assms
proof (induction js arbitrary: keep)
  case Nil
  then show ?case by simp
next
  case (Cons a js)
  let ?step = "flag_later peaks d a (a + 1) (flag_earlier peaks d a a keep)"
  let ?keep' = "if keep ! a then ?step else keep"
  have unfold: "select_loop peaks d (a # js) keep = select_loop peaks d js ?keep'" by simp
  have len: "length ?keep' = length peaks"
    using Cons.prems(2) by (simp add: flag_later_length flag_earlier_length)
  have js: "\<forall>j \<in> set js. j < length peaks" using Cons.prems(3) by simp
  have a: "a < length peaks" using Cons.prems(3) by simp
  have fin: "select_loop peaks d js ?keep' ! j" using Cons.prems(7) unfolding unfold .
  show ?case
  proof (cases "j \<in> set js")
    case True
    from Cons.IH [OF Cons.prems(1) len js True Cons.prems(5) Cons.prems(6) fin]
    show ?thesis unfolding unfold .
  next
    case False
    with Cons.prems(4) have ja: "j = a" by simp
    have "?keep' ! a"
      using fin ja a len select_loop_mono [of a ?keep' peaks d js] by simp
    then have on: "keep ! a" by (cases "keep ! a") simp_all
    have "\<not> ?step ! k"
      using Cons.prems(1) Cons.prems(2) a Cons.prems(5) Cons.prems(6) [unfolded ja]
      by (rule select_step_flags)
    with on have "\<not> ?keep' ! k" by simp
    moreover have "k < length ?keep'" using len Cons.prems(5) by simp
    ultimately have "\<not> select_loop peaks d js ?keep' ! k"
      using select_loop_mono [of k ?keep' peaks d js] by blast
    then show ?thesis unfolding unfold .
  qed
qed

lemma settled_step:
  assumes srt: "sorted peaks" and len: "length keep = length peaks"
    and a: "a < length peaks" and on: "keep ! a"
  shows "settled peaks d (flag_later peaks d a (a + 1) (flag_earlier peaks d a a keep)) a"
  unfolding settled_def
proof
  show "flag_later peaks d a (a + 1) (flag_earlier peaks d a a keep) ! a"
    by (rule select_step_keeps [OF len a on]) simp
  show "\<forall>m < length peaks. near peaks d a m \<longrightarrow>
          \<not> flag_later peaks d a (a + 1) (flag_earlier peaks d a a keep) ! m"
    using select_step_flags [OF srt len a] by blast
qed

lemma settled_preserved:
  assumes len: "length keep = length peaks"
    and a: "a < length peaks" and on: "keep ! a"
    and j: "j < length peaks" and sj: "settled peaks d keep j"
  shows "settled peaks d (flag_later peaks d a (a + 1) (flag_earlier peaks d a a keep)) j"
proof -
  let ?keep' = "flag_later peaks d a (a + 1) (flag_earlier peaks d a a keep)"
  from sj have kj: "keep ! j"
    and fj: "\<And>m. m < length peaks \<Longrightarrow> near peaks d j m \<Longrightarrow> \<not> keep ! m"
    by (simp_all add: settled_def)
  from fj [OF a] on have "\<not> near peaks d j a" by blast
  then have "a = j \<or> \<not> near peaks d j a" by simp
  with len j kj have 1: "?keep' ! j" by (rule select_step_keeps)
  have 2: "\<not> ?keep' ! m" if m: "m < length peaks" and nr: "near peaks d j m" for m
  proof
    assume "?keep' ! m"
    with m len have "keep ! m" using select_step_mono [of m keep peaks d a] by simp
    with fj [OF m nr] show False by simp
  qed
  from 1 2 show ?thesis by (simp add: settled_def)
qed


lemma dominated_step:
  assumes srt: "sorted peaks" and len: "length keep = length peaks"
    and a: "a < length peaks" and on: "keep ! a"
    and I1: "\<And>k. k < length peaks \<Longrightarrow> \<not> keep ! k \<Longrightarrow>
               \<exists>j < length peaks. settled peaks d keep j \<and> near peaks d j k
                  \<and> priority ! k \<le> priority ! j"
    and I2: "\<And>k. k < length peaks \<Longrightarrow> keep ! k \<Longrightarrow>
               settled peaks d keep k \<or> k \<in> set (a # js)"
    and top: "\<And>k. k \<in> set js \<Longrightarrow> priority ! k \<le> (priority ! a :: real)"
    and k: "k < length peaks"
    and off: "\<not> flag_later peaks d a (a + 1) (flag_earlier peaks d a a keep) ! k"
  shows "\<exists>j < length peaks.
           settled peaks d (flag_later peaks d a (a + 1) (flag_earlier peaks d a a keep)) j
           \<and> near peaks d j k \<and> priority ! k \<le> priority ! j"
proof (cases "keep ! k")
  case False
  from I1 [OF k False] obtain j where j: "j < length peaks" "settled peaks d keep j"
    "near peaks d j k" "priority ! k \<le> priority ! j"
    by blast
  from settled_preserved [OF len a on j(1) j(2)] j(1) j(3) j(4) show ?thesis by blast
next
  case True
  let ?keep' = "flag_later peaks d a (a + 1) (flag_earlier peaks d a a keep)"
  have fa: "settled peaks d ?keep' a" using srt len a on by (rule settled_step)
  then have "?keep' ! a" by (simp add: settled_def)
  with off have ka: "k \<noteq> a" by auto
  have nka: "near peaks d k a"
  proof (rule ccontr)
    assume "\<not> near peaks d k a"
    then have "a = k \<or> \<not> near peaks d k a" by simp
    with len k True have "?keep' ! k" by (rule select_step_keeps)
    with off show False by simp
  qed
  then have nak: "near peaks d a k" using near_sym [of peaks d k a] by simp
  have "\<not> settled peaks d keep k" using nka a on by (auto simp: settled_def)
  with I2 [OF k True] ka have "k \<in> set js" by simp
  then have "priority ! k \<le> priority ! a" by (rule top)
  with a fa nak show ?thesis by blast
qed

lemma pending_step:
  assumes srt: "sorted peaks" and len: "length keep = length peaks"
    and a: "a < length peaks" and on: "keep ! a"
    and I2: "\<And>k. k < length peaks \<Longrightarrow> keep ! k \<Longrightarrow>
               settled peaks d keep k \<or> k \<in> set (a # js)"
    and k: "k < length peaks"
    and kk: "flag_later peaks d a (a + 1) (flag_earlier peaks d a a keep) ! k"
  shows "settled peaks d (flag_later peaks d a (a + 1) (flag_earlier peaks d a a keep)) k
         \<or> k \<in> set js"
proof -
  let ?keep' = "flag_later peaks d a (a + 1) (flag_earlier peaks d a a keep)"
  from kk k len have old: "keep ! k" using select_step_mono [of k keep peaks d a] by simp
  show ?thesis
  proof (cases "k = a")
    case True
    with settled_step [OF srt len a on, of d] show ?thesis by simp
  next
    case False
    from I2 [OF k old] False have "settled peaks d keep k \<or> k \<in> set js" by simp
    then show ?thesis
    proof
      assume "settled peaks d keep k"
      with len a on k have "settled peaks d ?keep' k" by (rule settled_preserved)
      then show ?thesis by simp
    next
      assume "k \<in> set js"
      then show ?thesis by simp
    qed
  qed
qed

lemma select_loop_dominated:
  assumes "sorted peaks" and "length keep = length peaks"
    and "\<forall>j \<in> set js. j < length peaks"
    and "sorted_wrt (\<lambda>a b. priority ! b \<le> (priority ! a :: real)) js"
    and "\<forall>k < length peaks. \<not> keep ! k \<longrightarrow>
           (\<exists>j < length peaks. settled peaks d keep j \<and> near peaks d j k
              \<and> priority ! k \<le> priority ! j)"
    and "\<forall>k < length peaks. keep ! k \<longrightarrow> settled peaks d keep k \<or> k \<in> set js"
  shows "\<forall>k < length peaks. \<not> select_loop peaks d js keep ! k \<longrightarrow>
           (\<exists>j < length peaks. select_loop peaks d js keep ! j
              \<and> near peaks d j k \<and> priority ! k \<le> priority ! j)"
  using assms
proof (induction js arbitrary: keep)
  case Nil
  show ?case
  proof (intro allI impI)
    fix k assume "k < length peaks" and "\<not> select_loop peaks d [] keep ! k"
    then have "\<not> keep ! k" by simp
    with Nil.prems(5) \<open>k < length peaks\<close>
    obtain j where "j < length peaks" "settled peaks d keep j" "near peaks d j k"
      "priority ! k \<le> priority ! j"
      by blast
    then show "\<exists>j < length peaks. select_loop peaks d [] keep ! j
              \<and> near peaks d j k \<and> priority ! k \<le> priority ! j"
      by (auto simp: settled_def)
  qed
next
  case (Cons a js)
  have srt: "sorted peaks" by (rule Cons.prems(1))
  have len: "length keep = length peaks" by (rule Cons.prems(2))
  have a: "a < length peaks" using Cons.prems(3) by simp
  have rng': "\<forall>j \<in> set js. j < length peaks" using Cons.prems(3) by simp
  have ord': "sorted_wrt (\<lambda>a b. priority ! b \<le> priority ! a) js"
    using Cons.prems(4) by simp
  have top: "priority ! k \<le> priority ! a" if "k \<in> set js" for k
    using Cons.prems(4) that by simp
  have I1: "\<exists>j < length peaks. settled peaks d keep j \<and> near peaks d j k
              \<and> priority ! k \<le> priority ! j"
    if "k < length peaks" and "\<not> keep ! k" for k
    using Cons.prems(5) that by blast
  have I2: "settled peaks d keep k \<or> k \<in> set (a # js)"
    if "k < length peaks" and "keep ! k" for k
    using Cons.prems(6) that by blast
  show ?case
  proof (cases "keep ! a")
    case False
    have I2': "\<forall>k < length peaks. keep ! k \<longrightarrow> settled peaks d keep k \<or> k \<in> set js"
    proof (intro allI impI)
      fix k assume k: "k < length peaks" and kk: "keep ! k"
      from kk False have "k \<noteq> a" by auto
      with I2 [OF k kk] show "settled peaks d keep k \<or> k \<in> set js" by simp
    qed
    from Cons.IH [OF srt len rng' ord' Cons.prems(5) I2'] False show ?thesis by simp
  next
    case True
    let ?keep' = "flag_later peaks d a (a + 1) (flag_earlier peaks d a a keep)"
    have len': "length ?keep' = length peaks"
      using len by (simp add: flag_later_length flag_earlier_length)
    have I1': "\<forall>k < length peaks. \<not> ?keep' ! k \<longrightarrow>
           (\<exists>j < length peaks. settled peaks d ?keep' j \<and> near peaks d j k
              \<and> priority ! k \<le> priority ! j)"
    proof (intro allI impI)
      fix k assume k: "k < length peaks" and off: "\<not> ?keep' ! k"
      from srt len a True I1 I2 top k off
      show "\<exists>j < length peaks. settled peaks d ?keep' j \<and> near peaks d j k
              \<and> priority ! k \<le> priority ! j"
        by (rule dominated_step)
    qed
    have I2': "\<forall>k < length peaks. ?keep' ! k \<longrightarrow> settled peaks d ?keep' k \<or> k \<in> set js"
    proof (intro allI impI)
      fix k assume k: "k < length peaks" and kk: "?keep' ! k"
      from srt len a True I2 k kk
      show "settled peaks d ?keep' k \<or> k \<in> set js"
        by (rule pending_step)
    qed
    from Cons.IH [OF srt len' rng' ord' I1' I2'] True show ?thesis by simp
  qed
qed

lemma mask_select_mem:
  assumes "x \<in> set (mask_select xs keep)"
  shows "\<exists>j. j < length xs \<and> j < length keep \<and> xs ! j = x \<and> keep ! j"
proof -
  from assms have "(x, True) \<in> set (zip xs keep)" by (auto simp: mask_select_def)
  then obtain j where "j < length (zip xs keep)" "zip xs keep ! j = (x, True)"
    unfolding in_set_conv_nth by blast
  then have "j < length xs \<and> j < length keep \<and> xs ! j = x \<and> keep ! j" by simp
  then show ?thesis by blast
qed

subsection \<open>The peaks of one frame\<close>

lemma find_peaks_unfold:
  "find_peaks argsort x h d =
     mask_select (filter (\<lambda>p. h \<le> x ! p) (local_maxima_1d x))
       (select_by_peak_distance argsort (filter (\<lambda>p. h \<le> x ! p) (local_maxima_1d x))
          (map (\<lambda>p. x ! p) (filter (\<lambda>p. h \<le> x ! p) (local_maxima_1d x))) d)"
  by (simp add: find_peaks_def Let_def mask_select_property)

lemma find_peaks_subset:
  "set (find_peaks argsort x h d) \<subseteq> set (filter (\<lambda>p. h \<le> x ! p) (local_maxima_1d x))"
  unfolding find_peaks_unfold by (rule mask_select_subset)

lemma find_peaks_bounds:
  assumes "p \<in> set (find_peaks argsort x h d)"
  shows "1 \<le> p \<and> p + 1 < length x"
proof -
  from assms find_peaks_subset [of argsort x h d]
  have "p \<in> set (local_maxima_from x 1)"
    by (auto simp: local_maxima_1d_def)
  then show ?thesis by (rule local_maxima_from_bounds)
qed

lemma qualified_sorted:
  "sorted_wrt (<) (filter (\<lambda>p. h \<le> x ! p) (local_maxima_1d x))"
  by (intro sorted_wrt_filter) (simp add: local_maxima_1d_def local_maxima_from_sorted)

lemma find_peaks_sorted: "sorted_wrt (<) (find_peaks argsort x h d)"
  unfolding find_peaks_unfold by (intro mask_select_sorted_wrt qualified_sorted)

lemma find_peaks_top:
  assumes valid: "is_argsort argsort"
    and ne: "filter (\<lambda>p. h \<le> x ! p) (local_maxima_1d x) \<noteq> []"
  shows "\<exists>p \<in> set (find_peaks argsort x h d).
           \<forall>q \<in> set (filter (\<lambda>p. h \<le> x ! p) (local_maxima_1d x)). x ! q \<le> x ! p"
proof -
  let ?qm = "filter (\<lambda>p. h \<le> x ! p) (local_maxima_1d x)"
  let ?pr = "map (\<lambda>p. x ! p) ?qm"
  let ?j0 = "last (argsort ?pr)"
  have srt: "sorted ?qm" using qualified_sorted by (rule strict_sorted_imp_sorted)
  have len: "length ?pr = length ?qm" by simp
  from select_by_peak_distance_top [OF valid srt ne len, of d]
  have j0: "?j0 < length ?qm" and kept: "select_by_peak_distance argsort ?qm ?pr d ! ?j0"
    by auto
  have mem: "?qm ! ?j0 \<in> set (find_peaks argsort x h d)"
    unfolding find_peaks_unfold
    using j0 kept by (intro mask_select_nth) (simp_all add: select_by_peak_distance_length)
  have "\<forall>q \<in> set ?qm. x ! q \<le> x ! (?qm ! ?j0)"
  proof
    fix q assume "q \<in> set ?qm"
    then obtain k where k: "k < length ?qm" "?qm ! k = q"
      unfolding in_set_conv_nth by blast
    from ne have pne: "?pr \<noteq> []" by simp
    from k have "k < length ?pr" by simp
    from argsort_last_max [OF valid pne this] k j0 show "x ! q \<le> x ! (?qm ! ?j0)" by simp
  qed
  with mem show ?thesis by blast
qed

lemma find_peaks_separated:
  assumes valid: "is_argsort argsort"
    and i: "i \<in> set (find_peaks argsort x h d)"
    and i': "i' \<in> set (find_peaks argsort x h d)"
    and lt: "i < i'"
  shows "i + d \<le> i'"
proof (rule ccontr)
  assume close: "\<not> i + d \<le> i'"
  let ?qm = "filter (\<lambda>p. h \<le> x ! p) (local_maxima_1d x)"
  let ?pr = "map (\<lambda>p. x ! p) ?qm"
  let ?keep = "select_by_peak_distance argsort ?qm ?pr d"
  have srt: "sorted ?qm" using qualified_sorted by (rule strict_sorted_imp_sorted)
  from i obtain a where a: "a < length ?qm" "?qm ! a = i" "?keep ! a"
    unfolding find_peaks_unfold using mask_select_mem [of i ?qm ?keep] by blast
  from i' obtain b where b: "b < length ?qm" "?qm ! b = i'" "?keep ! b"
    unfolding find_peaks_unfold using mask_select_mem [of i' ?qm ?keep] by blast
  have ab: "a < b"
  proof (rule ccontr)
    assume "\<not> a < b"
    then have "b \<le> a" by simp
    then have "?qm ! b \<le> ?qm ! a"
      using sorted_nth_mono [OF srt, of b a] a(1) by simp
    with a(2) b(2) lt show False by simp
  qed
  from close a(2) b(2) have "int (?qm ! b) - int (?qm ! a) < int d" by simp
  with ab have nr: "near ?qm d b a" by (simp add: near_def)
  have order: "\<forall>j \<in> set (rev (argsort ?pr)). j < length ?qm"
    using is_argsort_set [OF valid, of ?pr] by simp
  have bin: "b \<in> set (rev (argsort ?pr))"
    using b(1) is_argsort_set [OF valid, of ?pr] by simp
  have "\<not> select_loop ?qm d (rev (argsort ?pr)) (replicate (length ?qm) True) ! a"
  proof (rule select_loop_separated [OF srt _ order bin a(1) nr])
    show "length (replicate (length ?qm) True) = length ?qm" by simp
    show "select_loop ?qm d (rev (argsort ?pr)) (replicate (length ?qm) True) ! b"
      using b(3) by (simp add: select_by_peak_distance_def)
  qed
  with a(3) show False by (simp add: select_by_peak_distance_def)
qed

lemma find_peaks_dominated:
  assumes valid: "is_argsort argsort"
    and q: "q \<in> set (filter (\<lambda>p. h \<le> x ! p) (local_maxima_1d x))"
    and out: "q \<notin> set (find_peaks argsort x h d)"
  shows "\<exists>i \<in> set (find_peaks argsort x h d).
           \<bar>int i - int q\<bar> < int d \<and> x ! q \<le> x ! i"
proof -
  let ?qm = "filter (\<lambda>p. h \<le> x ! p) (local_maxima_1d x)"
  let ?pr = "map (\<lambda>p. x ! p) ?qm"
  let ?js = "rev (argsort ?pr)"
  let ?all = "replicate (length ?qm) True"
  let ?keep = "select_by_peak_distance argsort ?qm ?pr d"
  have keep: "?keep = select_loop ?qm d ?js ?all"
    by (simp add: select_by_peak_distance_def)
  have klen: "length ?keep = length ?qm" by (rule select_by_peak_distance_length)
  have srt: "sorted ?qm" using qualified_sorted by (rule strict_sorted_imp_sorted)
  have js: "set ?js = {0..<length ?qm}"
    using is_argsort_set [OF valid, of ?pr] by simp
  then have rng: "\<forall>j \<in> set ?js. j < length ?qm" by simp
  have "sorted (map (\<lambda>j. ?pr ! j) (argsort ?pr))"
    using valid unfolding is_argsort_def by blast
  then have "sorted_wrt (\<lambda>a b. ?pr ! a \<le> ?pr ! b) (argsort ?pr)"
    by (simp add: sorted_map)
  then have ord: "sorted_wrt (\<lambda>a b. ?pr ! b \<le> ?pr ! a) ?js"
    by (simp add: sorted_wrt_rev)
  have I1: "\<forall>k < length ?qm. \<not> ?all ! k \<longrightarrow>
           (\<exists>j < length ?qm. settled ?qm d ?all j \<and> near ?qm d j k \<and> ?pr ! k \<le> ?pr ! j)"
  proof (intro allI impI)
    fix k assume "k < length ?qm" and "\<not> ?all ! k"
    then have False by simp
    then show "\<exists>j < length ?qm. settled ?qm d ?all j \<and> near ?qm d j k \<and> ?pr ! k \<le> ?pr ! j"
      by (rule FalseE)
  qed
  have I2: "\<forall>k < length ?qm. ?all ! k \<longrightarrow> settled ?qm d ?all k \<or> k \<in> set ?js"
  proof (intro allI impI)
    fix k assume "k < length ?qm" and "?all ! k"
    then have "k \<in> set ?js" unfolding js by simp
    then show "settled ?qm d ?all k \<or> k \<in> set ?js" by (rule disjI2)
  qed
  have alen: "length ?all = length ?qm" by simp
  note dom = select_loop_dominated [OF srt alen rng ord I1 I2]
  from q obtain k where k: "k < length ?qm" "?qm ! k = q"
    unfolding in_set_conv_nth by blast
  have off: "\<not> ?keep ! k"
  proof
    assume on: "?keep ! k"
    from k(1) have "k < length ?keep" using klen by simp
    with k(1) have "?qm ! k \<in> set (mask_select ?qm ?keep)"
      using on by (rule mask_select_nth)
    with out k(2) show False unfolding find_peaks_unfold by simp
  qed
  from dom [rule_format, OF k(1)] off
  obtain j where j: "j < length ?qm" "?keep ! j" "near ?qm d j k" "?pr ! k \<le> ?pr ! j"
    unfolding keep by blast
  from j(1) have "j < length ?keep" using klen by simp
  with j(1) have "?qm ! j \<in> set (mask_select ?qm ?keep)"
    using j(2) by (rule mask_select_nth)
  then have mem: "?qm ! j \<in> set (find_peaks argsort x h d)"
    unfolding find_peaks_unfold .
  have amp: "x ! q \<le> x ! (?qm ! j)" using j(4) j(1) k by simp
  have "\<bar>int (?qm ! j) - int (?qm ! k)\<bar> < int d"
  proof (cases "k < j")
    case True
    then have "?qm ! k \<le> ?qm ! j"
      using sorted_nth_mono [OF srt, of k j] j(1) by simp
    with True j(3) show ?thesis by (auto simp: near_def)
  next
    case False
    with j(3) have jk: "j < k" by (auto simp: near_def)
    then have "?qm ! j \<le> ?qm ! k"
      using sorted_nth_mono [OF srt, of j k] k(1) by simp
    with jk j(3) show ?thesis by (auto simp: near_def)
  qed
  with k(2) mem amp show ?thesis by blast
qed

lemma argmax_props:
  assumes "xs \<noteq> []"
  shows "argmax xs < length xs" and "xs ! argmax xs = Max (set xs)"
    and "\<And>i. i < argmax xs \<Longrightarrow> xs ! i < Max (set xs)"
proof -
  let ?P = "\<lambda>v. v < Max (set xs)"
  from assms have mem: "Max (set xs) \<in> set xs" by (intro Max_in) auto
  have "\<not> ?P (Max (set xs))" by simp
  with mem have "\<not> (\<forall>v \<in> set xs. ?P v)" by blast
  then have "takeWhile ?P xs \<noteq> xs" by (simp add: takeWhile_eq_all_conv)
  then have "length (takeWhile ?P xs) \<noteq> length xs"
    using takeWhile_eq_take [of ?P xs] by auto
  with length_takeWhile_le [of ?P xs] show lt: "argmax xs < length xs"
    unfolding argmax_def by simp
  from nth_length_takeWhile [of ?P xs] lt
  have "\<not> xs ! argmax xs < Max (set xs)" by (simp add: argmax_def)
  moreover from lt have "xs ! argmax xs \<le> Max (set xs)" by (intro Max_ge) auto
  ultimately show "xs ! argmax xs = Max (set xs)" by simp
  fix i assume "i < argmax xs"
  then have i: "i < length (takeWhile ?P xs)" by (simp add: argmax_def)
  then have "takeWhile ?P xs ! i \<in> set (takeWhile ?P xs)" by simp
  then have "?P (takeWhile ?P xs ! i)" by (rule set_takeWhileD [THEN conjunct2])
  with i show "xs ! i < Max (set xs)" by (simp add: takeWhile_nth)
qed

lemma find_peaks_empty_iff:
  assumes valid: "is_argsort argsort"
  shows "find_peaks argsort x MIN_PEAK_AMPLITUDE d = [] \<longleftrightarrow> qualified_maxima x = []"
proof
  assume "find_peaks argsort x MIN_PEAK_AMPLITUDE d = []"
  with find_peaks_top [OF valid, of MIN_PEAK_AMPLITUDE x d] show "qualified_maxima x = []"
    unfolding qualified_maxima_def by fastforce
next
  assume "qualified_maxima x = []"
  with find_peaks_subset [of argsort x MIN_PEAK_AMPLITUDE d]
  show "find_peaks argsort x MIN_PEAK_AMPLITUDE d = []"
    unfolding qualified_maxima_def by simp
qed

lemma frame_peak_none:
  assumes "qualified_maxima x = []"
  shows "frame_peak argsort off t x = []"
proof -
  from assms find_peaks_subset [of argsort x MIN_PEAK_AMPLITUDE PEAK_NEIGHBORHOOD_SIZE]
  have "find_peaks argsort x MIN_PEAK_AMPLITUDE PEAK_NEIGHBORHOOD_SIZE = []"
    unfolding qualified_maxima_def by simp
  then show ?thesis by (simp add: frame_peak_def)
qed

lemma frame_peak_some:
  assumes pne: "find_peaks argsort x MIN_PEAK_AMPLITUDE PEAK_NEIGHBORHOOD_SIZE \<noteq> []"
  shows "\<exists>i \<in> set (find_peaks argsort x MIN_PEAK_AMPLITUDE PEAK_NEIGHBORHOOD_SIZE).
           frame_peak argsort off t x =
             [\<lparr>frequency_bin = int (i + off), time_frame = int t, amplitude = x ! i\<rparr>]
           \<and> (\<forall>i' \<in> set (find_peaks argsort x MIN_PEAK_AMPLITUDE PEAK_NEIGHBORHOOD_SIZE).
                 x ! i' \<le> x ! i \<and> (x ! i' = x ! i \<longrightarrow> i \<le> i'))"
proof -
  let ?ps = "find_peaks argsort x MIN_PEAK_AMPLITUDE PEAK_NEIGHBORHOOD_SIZE"
  let ?amps = "map (\<lambda>p. x ! p) ?ps"
  let ?s = "argmax ?amps"
  from pne have ane: "?amps \<noteq> []" by simp
  from argmax_props [OF ane]
  have s_lt: "?s < length ?ps" and s_max: "?amps ! ?s = Max (set ?amps)"
    and s_first: "\<And>i. i < ?s \<Longrightarrow> ?amps ! i < Max (set ?amps)"
    by simp_all
  let ?i = "?ps ! ?s"
  have mem: "?i \<in> set ?ps" using s_lt by simp
  have amp: "x ! ?i = Max (set ?amps)" using s_max s_lt by simp
  have fp: "frame_peak argsort off t x =
              [\<lparr>frequency_bin = int (?i + off), time_frame = int t, amplitude = x ! ?i\<rparr>]"
    using pne s_lt by (simp add: frame_peak_def Let_def)
  have tie: "\<forall>i' \<in> set ?ps. x ! i' \<le> x ! ?i \<and> (x ! i' = x ! ?i \<longrightarrow> ?i \<le> i')"
  proof (intro ballI conjI impI)
    fix i' assume i': "i' \<in> set ?ps"
    then have "x ! i' \<le> Max (set ?amps)" by (intro Max_ge) auto
    with amp show "x ! i' \<le> x ! ?i" by simp
    assume eq: "x ! i' = x ! ?i"
    from i' obtain m where m: "m < length ?ps" "?ps ! m = i'"
      unfolding in_set_conv_nth by blast
    have "\<not> m < ?s"
    proof
      assume "m < ?s"
      from s_first [OF this] m eq amp show False by simp
    qed
    then have "?s \<le> m" by simp
    moreover have "sorted ?ps" using find_peaks_sorted by (rule strict_sorted_imp_sorted)
    ultimately have "?ps ! ?s \<le> ?ps ! m" using m(1) by (intro sorted_nth_mono)
    with m show "?i \<le> i'" by simp
  qed
  from mem fp tie show ?thesis by blast
qed

lemma frame_peak_one:
  assumes valid: "is_argsort argsort" and ne: "qualified_maxima x \<noteq> []"
  shows "\<exists>i \<in> set (find_peaks argsort x MIN_PEAK_AMPLITUDE PEAK_NEIGHBORHOOD_SIZE).
           frame_peak argsort off t x =
             [\<lparr>frequency_bin = int (i + off), time_frame = int t, amplitude = x ! i\<rparr>]
           \<and> (\<forall>q \<in> set (qualified_maxima x). x ! q \<le> x ! i)
           \<and> (\<forall>i' \<in> set (find_peaks argsort x MIN_PEAK_AMPLITUDE PEAK_NEIGHBORHOOD_SIZE).
                 x ! i' = x ! i \<longrightarrow> i \<le> i')"
proof -
  let ?ps = "find_peaks argsort x MIN_PEAK_AMPLITUDE PEAK_NEIGHBORHOOD_SIZE"
  from ne have pne: "?ps \<noteq> []" by (simp add: find_peaks_empty_iff [OF valid])
  from frame_peak_some [OF pne, of off t]
  obtain i where i: "i \<in> set ?ps"
    and fp: "frame_peak argsort off t x =
               [\<lparr>frequency_bin = int (i + off), time_frame = int t, amplitude = x ! i\<rparr>]"
    and best: "\<forall>i' \<in> set ?ps. x ! i' \<le> x ! i \<and> (x ! i' = x ! i \<longrightarrow> i \<le> i')"
    by blast
  from ne find_peaks_top [OF valid, of MIN_PEAK_AMPLITUDE x PEAK_NEIGHBORHOOD_SIZE]
  obtain p where p: "p \<in> set ?ps" "\<forall>q \<in> set (qualified_maxima x). x ! q \<le> x ! p"
    unfolding qualified_maxima_def by blast
  from best p(1) have "x ! p \<le> x ! i" by blast
  with p(2) have top: "\<forall>q \<in> set (qualified_maxima x). x ! q \<le> x ! i" by fastforce
  from i fp top best show ?thesis by blast
qed

lemma frame_peak_cases:
  "frame_peak argsort off t x = []
   \<or> (\<exists>i \<in> set (find_peaks argsort x MIN_PEAK_AMPLITUDE PEAK_NEIGHBORHOOD_SIZE).
         frame_peak argsort off t x =
           [\<lparr>frequency_bin = int (i + off), time_frame = int t, amplitude = x ! i\<rparr>])"
proof (cases "find_peaks argsort x MIN_PEAK_AMPLITUDE PEAK_NEIGHBORHOOD_SIZE = []")
  case True
  then show ?thesis by (simp add: frame_peak_def)
next
  case False
  from frame_peak_some [OF False, of off t] show ?thesis by blast
qed

lemma frame_peak_time:
  "p \<in> set (frame_peak argsort off t x) \<Longrightarrow> time_frame p = int t"
  using frame_peak_cases [of argsort off t x] by auto

lemma frame_peak_length: "length (frame_peak argsort off t x) \<le> 1"
  using frame_peak_cases [of argsort off t x] by auto

lemma frame_peak_filter:
  "filter (\<lambda>p. time_frame p = int t) (frame_peak argsort off t' x)
     = (if t = t' then frame_peak argsort off t' x else [])"
proof (cases "t = t'")
  case True
  then show ?thesis using frame_peak_time [of _ argsort off t' x] by (auto intro: filter_True)
next
  case False
  have "\<forall>p \<in> set (frame_peak argsort off t' x). \<not> time_frame p = int t"
    using False frame_peak_time [of _ argsort off t' x] by auto
  with False show ?thesis by (simp add: filter_False)
qed

lemma enumerate_frames_filter:
  "filter (\<lambda>p. time_frame p = int t)
     (concat (map (\<lambda>(time_idx, time_slice). frame_peak argsort off time_idx time_slice)
                  (enumerate n B)))
   = (if n \<le> t \<and> t < n + length B then frame_peak argsort off t (B ! (t - n)) else [])"
proof (induction B arbitrary: n)
  case Nil
  then show ?case by auto
next
  case (Cons x B)
  show ?case
  proof (cases "t = n")
    case True
    with Cons.IH [of "Suc n"] show ?thesis by (simp add: frame_peak_filter)
  next
    case False
    with Cons.IH [of "Suc n"] show ?thesis
      by (auto simp: frame_peak_filter Suc_diff_le)
  qed
qed

lemma find_peaks_in_band_frame:
  "filter (\<lambda>p. time_frame p = int t) (find_peaks_in_band argsort B off)
     = (if t < length B then frame_peak argsort off t (B ! t) else [])"
  unfolding find_peaks_in_band_def by (simp add: enumerate_frames_filter)

lemma find_peaks_in_band_mem:
  assumes "p \<in> set (find_peaks_in_band argsort B off)"
  shows "\<exists>t < length B. p \<in> set (frame_peak argsort off t (B ! t))"
proof -
  from assms obtain t x where "(t, x) \<in> set (enumerate 0 B)"
    "p \<in> set (frame_peak argsort off t x)"
    unfolding find_peaks_in_band_def by auto
  then show ?thesis by (auto simp: in_set_enumerate_eq)
qed

subsection \<open>Sample argsorts\<close>

lemma stable_argsort_valid: "is_argsort stable_argsort"
  by (simp add: is_argsort_def stable_argsort_def)

lemma ties_descending_argsort_valid: "is_argsort ties_descending_argsort"
proof -
  have "sorted (map (\<lambda>j. priority ! j) (ties_descending_argsort priority))" for priority
  proof -
    have "sorted (map (\<lambda>j. (priority ! j, - int j)) (ties_descending_argsort priority))"
      by (simp add: ties_descending_argsort_def)
    then have "sorted_wrt (\<lambda>j k. (priority ! j, - int j) \<le> (priority ! k, - int k))
                 (ties_descending_argsort priority)"
      by (simp add: sorted_map)
    then have "sorted_wrt (\<lambda>j k. priority ! j \<le> priority ! k)
                 (ties_descending_argsort priority)"
      by (rule sorted_wrt_mono_rel [rotated]) auto
    then show ?thesis by (simp add: sorted_map)
  qed
  then show ?thesis by (simp add: is_argsort_def ties_descending_argsort_def)
qed

text \<open>
  The two argsorts order equal heights differently, and \<open>find_peaks\<close> keeps different
  maxima: in the column 0, 2, 1, 2, 0, 1, 0, 1, 0 the maxima of height 2 at 1 and 3 are
  tied.
\<close>

lemma find_peaks_tie_orders:
  "find_peaks stable_argsort [0, 2, 1, 2, 0, 1, 0, 1, 0]
     MIN_PEAK_AMPLITUDE PEAK_NEIGHBORHOOD_SIZE = [3]
   \<and> find_peaks ties_descending_argsort [0, 2, 1, 2, 0, 1, 0, 1, 0]
     MIN_PEAK_AMPLITUDE PEAK_NEIGHBORHOOD_SIZE = [1, 7]"
  by code_simp

subsection \<open>Band edges\<close>

text \<open>
  Claim C10: for every spectrogram and every band (low_bin, high_bin), no peak that the
  picker emits for that band has \<open>frequency_bin\<close> equal to \<open>low_bin\<close> or to
  \<open>high_bin - 1\<close>; the emitted bins lie strictly between the two.  The local-maximum
  search never selects the first or the last sample of the band's slice.  This holds
  for every argsort.
\<close>

theorem C10_band_edges_never_peaks:
  "\<forall>p \<in> set (find_peaks_in_band argsort (band_spec S low_bin high_bin) low_bin).
     int low_bin < frequency_bin p \<and> frequency_bin p < int high_bin - 1"
proof
  fix p assume "p \<in> set (find_peaks_in_band argsort (band_spec S low_bin high_bin) low_bin)"
  then obtain t where t: "t < length (band_spec S low_bin high_bin)"
    and p: "p \<in> set (frame_peak argsort low_bin t (band_spec S low_bin high_bin ! t))"
    using find_peaks_in_band_mem by blast
  let ?x = "band_spec S low_bin high_bin ! t"
  from t have x: "?x = py_slice low_bin high_bin (S ! t)" by (simp add: band_spec_def)
  from p frame_peak_cases [of argsort low_bin t ?x]
  obtain i where i: "i \<in> set (find_peaks argsort ?x MIN_PEAK_AMPLITUDE PEAK_NEIGHBORHOOD_SIZE)"
    and pi: "p = \<lparr>frequency_bin = int (i + low_bin), time_frame = int t, amplitude = ?x ! i\<rparr>"
    by auto
  from find_peaks_bounds [OF i] have "1 \<le> i" and "i + 1 < length ?x" by simp_all
  moreover have "length ?x \<le> high_bin - low_bin" unfolding x by (simp add: py_slice_def)
  ultimately show "int low_bin < frequency_bin p \<and> frequency_bin p < int high_bin - 1"
    using pi by auto
qed

text \<open>
  Witness for C10: in \<open>edge_frame\<close> the band (1, 6) has its largest magnitude in its last
  bin 5, and the only peak emitted is the interior maximum in bin 2.
\<close>

theorem C10_band_edges_never_peaks_witness:
  "find_peaks_in_band stable_argsort (band_spec [edge_frame] 1 6) 1
     = [\<lparr>frequency_bin = 2, time_frame = 0, amplitude = 1\<rparr>]
   \<and> int 1 < frequency_bin \<lparr>frequency_bin = 2, time_frame = 0, amplitude = 1\<rparr>
   \<and> frequency_bin \<lparr>frequency_bin = 2, time_frame = 0, amplitude = 1\<rparr> < int 6 - 1"
proof -
  have ev: "find_peaks_in_band stable_argsort (band_spec [edge_frame] 1 6) 1
              = [\<lparr>frequency_bin = 2, time_frame = 0, amplitude = 1\<rparr>]"
    by code_simp
  from C10_band_edges_never_peaks [of stable_argsort "[edge_frame]" 1 6] ev
  show ?thesis by simp
qed

subsection \<open>One peak per band and frame\<close>

text \<open>
  Claim C6: for every spectrogram, band and frame \<open>t\<close>, the picker emits at most one
  peak.  The maxima it chooses from are those that \<open>find_peaks\<close> returns: local maxima of
  the band's column at or above \<open>MIN_PEAK_AMPLITUDE\<close>, any two of them at least
  \<open>PEAK_NEIGHBORHOOD_SIZE\<close> bins apart.  When the column has a local maximum at or above
  the floor, exactly one peak is emitted: its amplitude is the greatest among all those
  local maxima, and among the returned maxima of that amplitude it has the lowest
  frequency bin.  When there is none, nothing is emitted.  A local maximum at or above
  the floor that is not returned lies less than \<open>PEAK_NEIGHBORHOOD_SIZE\<close> bins from a
  returned maximum that is at least as high.  The merged peak list holds
  exactly the peaks of the bands and is sorted by time frame ascending, then amplitude
  descending.  All this holds for every argsort, whatever order it gives equal heights.
\<close>

theorem C6_peak_picker:
  assumes valid: "is_argsort argsort" and t: "t < length S"
  shows "length (filter (\<lambda>p. time_frame p = int t)
                   (find_peaks_in_band argsort (band_spec S low_bin high_bin) low_bin)) \<le> 1
         \<and> (qualified_maxima (py_slice low_bin high_bin (S ! t)) = [] \<longrightarrow>
              filter (\<lambda>p. time_frame p = int t)
                (find_peaks_in_band argsort (band_spec S low_bin high_bin) low_bin) = [])
         \<and> (qualified_maxima (py_slice low_bin high_bin (S ! t)) \<noteq> [] \<longrightarrow>
              (\<exists>i \<in> set (find_peaks argsort (py_slice low_bin high_bin (S ! t))
                           MIN_PEAK_AMPLITUDE PEAK_NEIGHBORHOOD_SIZE).
                 filter (\<lambda>p. time_frame p = int t)
                   (find_peaks_in_band argsort (band_spec S low_bin high_bin) low_bin)
                 = [\<lparr>frequency_bin = int (i + low_bin), time_frame = int t,
                     amplitude = py_slice low_bin high_bin (S ! t) ! i\<rparr>]
                 \<and> (\<forall>q \<in> set (qualified_maxima (py_slice low_bin high_bin (S ! t))).
                       py_slice low_bin high_bin (S ! t) ! q
                         \<le> py_slice low_bin high_bin (S ! t) ! i)
                 \<and> (\<forall>i' \<in> set (find_peaks argsort (py_slice low_bin high_bin (S ! t))
                                  MIN_PEAK_AMPLITUDE PEAK_NEIGHBORHOOD_SIZE).
                       py_slice low_bin high_bin (S ! t) ! i'
                         = py_slice low_bin high_bin (S ! t) ! i \<longrightarrow> i \<le> i')))
         \<and> set (find_peaks argsort (py_slice low_bin high_bin (S ! t))
                  MIN_PEAK_AMPLITUDE PEAK_NEIGHBORHOOD_SIZE)
             \<subseteq> set (qualified_maxima (py_slice low_bin high_bin (S ! t)))
         \<and> (\<forall>i \<in> set (find_peaks argsort (py_slice low_bin high_bin (S ! t))
                         MIN_PEAK_AMPLITUDE PEAK_NEIGHBORHOOD_SIZE).
              \<forall>i' \<in> set (find_peaks argsort (py_slice low_bin high_bin (S ! t))
                         MIN_PEAK_AMPLITUDE PEAK_NEIGHBORHOOD_SIZE).
                i < i' \<longrightarrow> i + PEAK_NEIGHBORHOOD_SIZE \<le> i')
         \<and> (\<forall>q \<in> set (qualified_maxima (py_slice low_bin high_bin (S ! t))).
              q \<in> set (find_peaks argsort (py_slice low_bin high_bin (S ! t))
                         MIN_PEAK_AMPLITUDE PEAK_NEIGHBORHOOD_SIZE)
              \<or> (\<exists>i \<in> set (find_peaks argsort (py_slice low_bin high_bin (S ! t))
                              MIN_PEAK_AMPLITUDE PEAK_NEIGHBORHOOD_SIZE).
                    \<bar>int i - int q\<bar> < int PEAK_NEIGHBORHOOD_SIZE
                    \<and> py_slice low_bin high_bin (S ! t) ! q
                          \<le> py_slice low_bin high_bin (S ! t) ! i))
         \<and> sorted_wrt (\<lambda>p q. time_frame p < time_frame q
                          \<or> (time_frame p = time_frame q \<and> amplitude q \<le> amplitude p))
              (extract_peaks argsort band_indices S)
         \<and> mset (extract_peaks argsort band_indices S)
             = mset (band_peaks argsort band_indices S)"
proof -
  let ?x = "py_slice low_bin high_bin (S ! t)"
  let ?fp = "find_peaks argsort ?x MIN_PEAK_AMPLITUDE PEAK_NEIGHBORHOOD_SIZE"
  let ?em = "filter (\<lambda>p. time_frame p = int t)
               (find_peaks_in_band argsort (band_spec S low_bin high_bin) low_bin)"
  have em: "?em = frame_peak argsort low_bin t ?x"
    using t by (simp add: find_peaks_in_band_frame band_spec_def)
  have 1: "length ?em \<le> 1" unfolding em by (rule frame_peak_length)
  have 2: "qualified_maxima ?x = [] \<longrightarrow> ?em = []"
    unfolding em by (simp add: frame_peak_none)
  have 3: "qualified_maxima ?x \<noteq> [] \<longrightarrow>
             (\<exists>i \<in> set ?fp.
                ?em = [\<lparr>frequency_bin = int (i + low_bin), time_frame = int t,
                        amplitude = ?x ! i\<rparr>]
                \<and> (\<forall>q \<in> set (qualified_maxima ?x). ?x ! q \<le> ?x ! i)
                \<and> (\<forall>i' \<in> set ?fp. ?x ! i' = ?x ! i \<longrightarrow> i \<le> i'))"
    unfolding em using frame_peak_one [OF valid, of ?x low_bin t] by blast
  have 4: "set ?fp \<subseteq> set (qualified_maxima ?x)"
    unfolding qualified_maxima_def by (rule find_peaks_subset)
  have 5: "\<forall>i \<in> set ?fp. \<forall>i' \<in> set ?fp. i < i' \<longrightarrow> i + PEAK_NEIGHBORHOOD_SIZE \<le> i'"
    using find_peaks_separated [OF valid] by blast
  have dominated: "\<forall>q \<in> set (qualified_maxima ?x).
              q \<in> set ?fp
              \<or> (\<exists>i \<in> set ?fp. \<bar>int i - int q\<bar> < int PEAK_NEIGHBORHOOD_SIZE
                                \<and> ?x ! q \<le> ?x ! i)"
  proof
    fix q assume q: "q \<in> set (qualified_maxima ?x)"
    show "q \<in> set ?fp
          \<or> (\<exists>i \<in> set ?fp. \<bar>int i - int q\<bar> < int PEAK_NEIGHBORHOOD_SIZE
                            \<and> ?x ! q \<le> ?x ! i)"
    proof (cases "q \<in> set ?fp")
      case True
      then show ?thesis by (rule disjI1)
    next
      case False
      from q have "q \<in> set (filter (\<lambda>p. MIN_PEAK_AMPLITUDE \<le> ?x ! p) (local_maxima_1d ?x))"
        by (simp only: qualified_maxima_def)
      from find_peaks_dominated [OF valid this False] show ?thesis by (rule disjI2)
    qed
  qed
  have "sorted (map peak_sort_key (extract_peaks argsort band_indices S))"
    by (simp add: extract_peaks_def)
  then have "sorted_wrt (\<lambda>p q. peak_sort_key p \<le> peak_sort_key q)
               (extract_peaks argsort band_indices S)"
    by (simp add: sorted_map)
  then have 6: "sorted_wrt (\<lambda>p q. time_frame p < time_frame q
                          \<or> (time_frame p = time_frame q \<and> amplitude q \<le> amplitude p))
              (extract_peaks argsort band_indices S)"
    by (rule sorted_wrt_mono_rel [rotated]) (auto simp: peak_sort_key_def)
  have 7: "mset (extract_peaks argsort band_indices S)
             = mset (band_peaks argsort band_indices S)"
    by (simp add: extract_peaks_def)
  show ?thesis
    apply (intro conjI)
    apply (rule 1)
    apply (rule 2)
    apply (rule 3)
    apply (rule 4)
    apply (rule 5)
    apply (rule dominated)
    apply (rule 6)
    apply (rule 7)
    done
qed

text \<open>
  Sample evaluations on \<open>sample_spectrogram\<close>, two frames of eighteen bins with the
  bands (0, 9) and (9, 18).  In frame 0 the upper band has two maxima of equal amplitude
  3, six bins apart: both are returned and the lower bin 10 is emitted.  The lower band
  holds the column of \<open>find_peaks_tie_orders\<close>, where the argsort decides which of the
  tied maxima is returned.  In the merged list the peak of the upper band, the stronger
  one, comes first in frame 0.
\<close>

lemma sample_upper_band:
  "find_peaks ties_descending_argsort (py_slice 9 18 (sample_spectrogram ! 0))
     MIN_PEAK_AMPLITUDE PEAK_NEIGHBORHOOD_SIZE = [1, 7]
   \<and> filter (\<lambda>p. time_frame p = int 0)
       (find_peaks_in_band ties_descending_argsort (band_spec sample_spectrogram 9 18) 9)
     = [\<lparr>frequency_bin = 10, time_frame = 0, amplitude = 3\<rparr>]"
  by code_simp

lemma sample_lower_band:
  "qualified_maxima (py_slice 0 9 (sample_spectrogram ! 0)) = [1, 3, 5, 7]
   \<and> find_peaks ties_descending_argsort (py_slice 0 9 (sample_spectrogram ! 0))
       MIN_PEAK_AMPLITUDE PEAK_NEIGHBORHOOD_SIZE = [1, 7]
   \<and> find_peaks stable_argsort (py_slice 0 9 (sample_spectrogram ! 0))
       MIN_PEAK_AMPLITUDE PEAK_NEIGHBORHOOD_SIZE = [3]"
  by code_simp

lemma sample_extract_peaks:
  "extract_peaks ties_descending_argsort [(0, 9), (9, 18)] sample_spectrogram
     = [\<lparr>frequency_bin = 10, time_frame = 0, amplitude = 3\<rparr>,
        \<lparr>frequency_bin = 1, time_frame = 0, amplitude = 2\<rparr>,
        \<lparr>frequency_bin = 4, time_frame = 1, amplitude = 4\<rparr>]
   \<and> extract_peaks stable_argsort [(0, 9), (9, 18)] sample_spectrogram
     = [\<lparr>frequency_bin = 10, time_frame = 0, amplitude = 3\<rparr>,
        \<lparr>frequency_bin = 3, time_frame = 0, amplitude = 2\<rparr>,
        \<lparr>frequency_bin = 4, time_frame = 1, amplitude = 4\<rparr>]
   \<and> band_peaks ties_descending_argsort [(0, 9), (9, 18)] sample_spectrogram
     = [\<lparr>frequency_bin = 1, time_frame = 0, amplitude = 2\<rparr>,
        \<lparr>frequency_bin = 4, time_frame = 1, amplitude = 4\<rparr>,
        \<lparr>frequency_bin = 10, time_frame = 0, amplitude = 3\<rparr>]"
  by code_simp

text \<open>
  Witness for C6: the theorem at frame 0 and the upper band of \<open>sample_spectrogram\<close>,
  with the argsort that lists equal heights in descending index order.  The tie of the
  two returned maxima is broken towards bin 10.  In the lower band the distance
  condition drops the maxima in bins 3 and 5, each less than five bins from a returned
  maximum of the same height.  The sort reorders the three peaks that the two bands
  contribute over two frames.
\<close>

theorem C6_peak_picker_witness:
  "is_argsort ties_descending_argsort
   \<and> 0 < length sample_spectrogram
   \<and> find_peaks ties_descending_argsort (py_slice 9 18 (sample_spectrogram ! 0))
       MIN_PEAK_AMPLITUDE PEAK_NEIGHBORHOOD_SIZE = [1, 7]
   \<and> filter (\<lambda>p. time_frame p = int 0)
       (find_peaks_in_band ties_descending_argsort (band_spec sample_spectrogram 9 18) 9)
     = [\<lparr>frequency_bin = 10, time_frame = 0, amplitude = 3\<rparr>]
   \<and> qualified_maxima (py_slice 0 9 (sample_spectrogram ! 0)) = [1, 3, 5, 7]
   \<and> find_peaks ties_descending_argsort (py_slice 0 9 (sample_spectrogram ! 0))
       MIN_PEAK_AMPLITUDE PEAK_NEIGHBORHOOD_SIZE = [1, 7]
   \<and> extract_peaks ties_descending_argsort [(0, 9), (9, 18)] sample_spectrogram
     = [\<lparr>frequency_bin = 10, time_frame = 0, amplitude = 3\<rparr>,
        \<lparr>frequency_bin = 1, time_frame = 0, amplitude = 2\<rparr>,
        \<lparr>frequency_bin = 4, time_frame = 1, amplitude = 4\<rparr>]
   \<and> band_peaks ties_descending_argsort [(0, 9), (9, 18)] sample_spectrogram
     = [\<lparr>frequency_bin = 1, time_frame = 0, amplitude = 2\<rparr>,
        \<lparr>frequency_bin = 4, time_frame = 1, amplitude = 4\<rparr>,
        \<lparr>frequency_bin = 10, time_frame = 0, amplitude = 3\<rparr>]
   \<and> length (filter (\<lambda>p. time_frame p = int 0)
               (find_peaks_in_band ties_descending_argsort
                  (band_spec sample_spectrogram 9 18) 9)) \<le> 1
   \<and> sorted_wrt (\<lambda>p q. time_frame p < time_frame q
                    \<or> (time_frame p = time_frame q \<and> amplitude q \<le> amplitude p))
        (extract_peaks ties_descending_argsort [(0, 9), (9, 18)] sample_spectrogram)
   \<and> mset (extract_peaks ties_descending_argsort [(0, 9), (9, 18)] sample_spectrogram)
       = mset (band_peaks ties_descending_argsort [(0, 9), (9, 18)] sample_spectrogram)"
proof -
  have len: "0 < length sample_spectrogram" by (simp add: sample_spectrogram_def)
  note th = C6_peak_picker [OF ties_descending_argsort_valid len,
      where low_bin = 9 and high_bin = 18 and band_indices = "[(0, 9), (9, 18)]"]
  note one = th [THEN conjunct1]
  note rest = th [THEN conjunct2, THEN conjunct2, THEN conjunct2, THEN conjunct2,
      THEN conjunct2, THEN conjunct2]
  show ?thesis
    apply (intro conjI)
    apply (rule ties_descending_argsort_valid)
    apply (rule len)
    apply (rule sample_upper_band [THEN conjunct1])
    apply (rule sample_upper_band [THEN conjunct2])
    apply (rule sample_lower_band [THEN conjunct1])
    apply (rule sample_lower_band [THEN conjunct2, THEN conjunct1])
    apply (rule sample_extract_peaks [THEN conjunct1])
    apply (rule sample_extract_peaks [THEN conjunct2, THEN conjunct2])
    apply (rule one)
    apply (rule rest [THEN conjunct1])
    apply (rule rest [THEN conjunct2])
    done
qed

section \<open>Properties of hash generation\<close>

lemma create_hash_value:
  assumes "create_hash H a t = Some h"
  shows "hash_value h = take 16 (H (hash_string (anchor_freq h) (target_freq h) (time_delta h)))"
  using assms by (auto simp: create_hash_def Let_def split: if_splits)

lemma generate_loop_value:
  "h \<in> set (generate_loop H ps) \<Longrightarrow>
   hash_value h = take 16 (H (hash_string (anchor_freq h) (target_freq h) (time_delta h)))"
proof (induction ps)
  case Nil
  then show ?case by simp
next
  case (Cons a ps)
  from Cons.prems consider
    (first) t where "create_hash H a t = Some h"
    | (later) "h \<in> set (generate_loop H ps)"
    by (auto simp: List.map_filter_def)
  then show ?case
  proof cases
    case first
    then show ?thesis by (rule create_hash_value)
  next
    case later
    then show ?thesis by (rule Cons.IH)
  qed
qed

text \<open>
  Claim C5: the hash construction maps any two peak pairs with identical anchor bin,
  target bin and time delta to equal hash values (and accepts one pair exactly when it
  accepts the other); any two hashes generated from any two peak lists that agree in
  these three fields have equal hash values; and fingerprinting is a function of the
  spectrogram, so two runs on the same preprocessed audio give the same multiset of
  hashes.  \<open>H\<close> is the digest.
\<close>

theorem C5_hash_deterministic:
  assumes "frequency_bin a1 = frequency_bin a2"
    and "frequency_bin t1 = frequency_bin t2"
    and "time_frame t1 - time_frame a1 = time_frame t2 - time_frame a2"
  shows "map_option hash_value (create_hash H a1 t1)
           = map_option hash_value (create_hash H a2 t2)
         \<and> (create_hash H a1 t1 = None \<longleftrightarrow> create_hash H a2 t2 = None)
         \<and> (\<forall>h1 \<in> set (generate_hashes H ps1). \<forall>h2 \<in> set (generate_hashes H ps2).
               anchor_freq h1 = anchor_freq h2 \<and> target_freq h1 = target_freq h2
               \<and> time_delta h1 = time_delta h2 \<longrightarrow> hash_value h1 = hash_value h2)
         \<and> (stft x = stft y \<longrightarrow>
               mset (fingerprint_audio argsort stft H bands x) = mset (fingerprint_audio argsort stft H bands y))"
proof -
  have 1: "map_option hash_value (create_hash H a1 t1)
             = map_option hash_value (create_hash H a2 t2)"
    using assms by (simp add: create_hash_def Let_def)
  have 2: "create_hash H a1 t1 = None \<longleftrightarrow> create_hash H a2 t2 = None"
    using assms by (simp add: create_hash_def Let_def)
  have 3: "\<forall>h1 \<in> set (generate_hashes H ps1). \<forall>h2 \<in> set (generate_hashes H ps2).
               anchor_freq h1 = anchor_freq h2 \<and> target_freq h1 = target_freq h2
               \<and> time_delta h1 = time_delta h2 \<longrightarrow> hash_value h1 = hash_value h2"
    unfolding generate_hashes_def by (auto dest!: generate_loop_value)
  have 4: "stft x = stft y \<longrightarrow>
             mset (fingerprint_audio argsort stft H bands x) = mset (fingerprint_audio argsort stft H bands y)"
    by (simp add: fingerprint_audio_def)
  from 1 2 3 4 show ?thesis by blast
qed

text \<open>
  Witness for C5: the pair (30, 45) seven frames apart, once at frame 0 and once at frame
  100, with different amplitudes; the identity stands in for the digest.
\<close>

theorem C5_hash_deterministic_witness:
  "map_option hash_value
     (create_hash (\<lambda>s. s)
        \<lparr>frequency_bin = 30, time_frame = 0, amplitude = 1\<rparr>
        \<lparr>frequency_bin = 45, time_frame = 7, amplitude = 2\<rparr>)
   = Some ''30|45|7''
   \<and> map_option hash_value
     (create_hash (\<lambda>s. s)
        \<lparr>frequency_bin = 30, time_frame = 100, amplitude = 5\<rparr>
        \<lparr>frequency_bin = 45, time_frame = 107, amplitude = 3\<rparr>)
   = Some ''30|45|7''"
proof -
  have "map_option hash_value
     (create_hash (\<lambda>s. s)
        \<lparr>frequency_bin = 30, time_frame = 0, amplitude = 1\<rparr>
        \<lparr>frequency_bin = 45, time_frame = 7, amplitude = 2\<rparr>)
   = Some ''30|45|7''"
    by code_simp
  with C5_hash_deterministic [of
        "\<lparr>frequency_bin = 30, time_frame = 0, amplitude = 1\<rparr>"
        "\<lparr>frequency_bin = 30, time_frame = 100, amplitude = 5\<rparr>"
        "\<lparr>frequency_bin = 45, time_frame = 7, amplitude = 2\<rparr>"
        "\<lparr>frequency_bin = 45, time_frame = 107, amplitude = 3\<rparr>" "\<lambda>s. s"]
  show ?thesis by simp
qed

subsection \<open>The number of hashes of a four-band grid\<close>

lemma create_hash_eq_None:
  "create_hash H a t = None \<longleftrightarrow>
     \<not> (HASH_TIME_DELTA_MIN \<le> time_frame t - time_frame a
        \<and> time_frame t - time_frame a \<le> HASH_TIME_DELTA_MAX)"
  by (simp add: create_hash_def Let_def)

lemma grid_from_time: "p \<in> set (grid_from t k) \<Longrightarrow> int t \<le> time_frame p"
  by (induction k arbitrary: t) (fastforce simp: four_band_frame_def)+

lemma grid_from_sorted: "sorted (map time_frame (grid_from t k))"
proof (induction k arbitrary: t)
  case 0
  then show ?case by simp
next
  case (Suc k)
  have "\<forall>p \<in> set (grid_from (Suc t) k). int t \<le> time_frame p"
    using grid_from_time [of _ "Suc t" k] by fastforce
  with Suc [of "Suc t"] show ?case
    by (simp add: four_band_frame_def sorted_append)
qed

lemma find_target_loop_skip:
  "\<forall>p \<in> set same. time_frame p = time_frame a \<Longrightarrow>
   find_target_loop a m (same @ rest) acc = find_target_loop a m rest acc"
  by (induction same) (simp_all add: HASH_TIME_DELTA_MIN_def)

lemma grid_targets_length:
  assumes "time_frame a = int t"
  shows "length (List.map_filter (create_hash H a)
                   (find_target_loop a HASH_FAN_VALUE (grid_from (Suc t) k) []))
         = (if k = 0 then 0 else if k = 1 then 4 else 5)"
proof (cases k)
  case 0
  then show ?thesis by (simp add: List.map_filter_def)
next
  case (Suc k1)
  show ?thesis
  proof (cases k1)
    case 0
    with Suc assms show ?thesis
      by (simp add: List.map_filter_def four_band_frame_def create_hash_def Let_def
          HASH_FAN_VALUE_def HASH_TIME_DELTA_MIN_def HASH_TIME_DELTA_MAX_def)
  next
    case (Suc k2)
    with \<open>k = Suc k1\<close> assms show ?thesis
      by (simp add: List.map_filter_def four_band_frame_def create_hash_def Let_def
          HASH_FAN_VALUE_def HASH_TIME_DELTA_MIN_def HASH_TIME_DELTA_MAX_def)
  qed
qed

lemma anchor_hashes_length:
  assumes "time_frame a = int t" and "\<forall>p \<in> set same. time_frame p = int t"
  shows "length (List.map_filter (create_hash H a)
                   (find_target_peaks a (same @ grid_from (Suc t) k) HASH_FAN_VALUE))
         = (if k = 0 then 0 else if k = 1 then 4 else 5)"
  unfolding find_target_peaks_def
  using assms by (simp add: find_target_loop_skip grid_targets_length)

lemma generate_loop_grid_step:
  "length (generate_loop H (grid_from t (Suc k)))
     = 4 * (if k = 0 then 0 else if k = 1 then 4 else 5) + length (generate_loop H (grid_from (Suc t) k))"
proof -
  let ?G = "grid_from (Suc t) k"
  let ?p = "\<lambda>b. \<lparr>frequency_bin = b, time_frame = int t, amplitude = 1\<rparr>"
  have g: "grid_from t (Suc k) = ?p 30 # ?p 60 # ?p 100 # ?p 150 # ?G"
    by (simp add: four_band_frame_def)
  have 1: "length (List.map_filter (create_hash H (?p 30))
             (find_target_peaks (?p 30) ([?p 60, ?p 100, ?p 150] @ ?G) HASH_FAN_VALUE))
           = (if k = 0 then 0 else if k = 1 then 4 else 5)"
    by (rule anchor_hashes_length) simp_all
  have 2: "length (List.map_filter (create_hash H (?p 60))
             (find_target_peaks (?p 60) ([?p 100, ?p 150] @ ?G) HASH_FAN_VALUE))
           = (if k = 0 then 0 else if k = 1 then 4 else 5)"
    by (rule anchor_hashes_length) simp_all
  have 3: "length (List.map_filter (create_hash H (?p 100))
             (find_target_peaks (?p 100) ([?p 150] @ ?G) HASH_FAN_VALUE))
           = (if k = 0 then 0 else if k = 1 then 4 else 5)"
    by (rule anchor_hashes_length) simp_all
  have 4: "length (List.map_filter (create_hash H (?p 150))
             (find_target_peaks (?p 150) ([] @ ?G) HASH_FAN_VALUE))
           = (if k = 0 then 0 else if k = 1 then 4 else 5)"
    by (rule anchor_hashes_length) simp_all
  from 1 2 3 4 show ?thesis unfolding g by simp
qed

lemma generate_loop_grid_length:
  "2 \<le> k \<Longrightarrow> length (generate_loop H (grid_from t k)) = 20 * k - 24"
proof (induction k arbitrary: t)
  case 0
  then show ?case by simp
next
  case (Suc k)
  show ?case
  proof (cases "k = 1")
    case True
    have "length (generate_loop H (grid_from (Suc t) 1)) = 0"
      using generate_loop_grid_step [of H "Suc t" 0] by simp
    with True show ?thesis using generate_loop_grid_step [of H t 1] by simp
  next
    case False
    with Suc.prems have "2 \<le> k" by simp
    from Suc.IH [OF this, of "Suc t"] False \<open>2 \<le> k\<close> show ?thesis
      using generate_loop_grid_step [of H t k] by simp
  qed
qed

lemma generate_hashes_grid: "2 \<le> n \<Longrightarrow> length (generate_hashes H (grid_peaks n)) = 20 * n - 24"
  unfolding generate_hashes_def grid_peaks_def
  by (simp add: sort_key_id_if_sorted grid_from_sorted generate_loop_grid_length)

section \<open>Properties of ingest\<close>

text \<open>
  Claim C1, as stated, fails: a second \<open>add_song\<close> with a file path that is already
  present is not rejected.  It returns a new song id (\<open>INSERT OR REPLACE\<close>).
\<close>

theorem C1_counterexample:
  "map row_file_path (songs one_song_db) = [''/music/a440.wav'']
   \<and> snd (add_song NoFault one_song_db ''A440'' ''Test'' ''/music/a440.wav''
            [demo_hash] None (Some 10) None) = Inr 2
   \<and> snd (add_song NoFault one_song_db ''A440'' ''Test'' ''/music/a440.wav''
            [demo_hash] None (Some 10) None) \<noteq> Inl DuplicatePath"
  by (simp add: one_song_db_def add_song_def insert_or_replace_def init_database_def
      store_fingerprints_redis_def demo_hash_def)

lemma add_song_no_fault:
  "add_song NoFault db t a p fps al du fs =
     (if redis_client db \<and> fps \<noteq> []
      then store_fingerprints_redis
             (fst (insert_or_replace db t a al p du fs (length fps)))
             (snd (insert_or_replace db t a al p du fs (length fps))) fps
      else fst (insert_or_replace db t a al p du fs (length fps)),
      Inr (snd (insert_or_replace db t a al p du fs (length fps))))"
  by (simp add: add_song_def insert_or_replace_def Let_def)

lemma songs_store_fingerprints [simp]:
  "songs (store_fingerprints_redis db sid fps) = songs db"
  by (simp add: store_fingerprints_redis_def)

lemma seq_store_fingerprints [simp]:
  "sqlite_sequence (store_fingerprints_redis db sid fps) = sqlite_sequence db"
  by (simp add: store_fingerprints_redis_def)

lemma songs_add_song_no_fault:
  "songs (fst (add_song NoFault db t a p fps al du fs))
     = filter (\<lambda>r. row_file_path r \<noteq> p) (songs db)
       @ [\<lparr>row_id = Suc (max (sqlite_sequence db) (fold max (map row_id (songs db)) 0)),
           row_title = t, row_artist = a, row_album = al, row_file_path = p,
           row_duration = du, row_file_size = fs, row_fingerprint_count = length fps\<rparr>]"
  by (simp add: add_song_no_fault insert_or_replace_def Let_def)

lemma result_add_song_no_fault:
  "snd (add_song NoFault db t a p fps al du fs)
     = Inr (Suc (max (sqlite_sequence db) (fold max (map row_id (songs db)) 0)))"
  by (simp add: add_song_no_fault insert_or_replace_def Let_def)

lemma seq_add_song_no_fault:
  "sqlite_sequence (fst (add_song NoFault db t a p fps al du fs))
     = Suc (max (sqlite_sequence db) (fold max (map row_id (songs db)) 0))"
  by (simp add: add_song_no_fault insert_or_replace_def Let_def)

text \<open>
  Claim C1, amended: when a file path that is not yet present is ingested twice, neither
  call is rejected; the second call replaces the row of the first under a new, larger
  song id (the first id no longer has a row), and across the two calls the metadata
  store grows by exactly one row.
\<close>

theorem C1_second_ingest_replaces:
  assumes fresh: "get_song_by_path db p = None"
    and first: "add_song NoFault db t a p fps al du fs = (db1, r1)"
    and second: "add_song NoFault db1 t' a' p fps' al' du' fs' = (db2, r2)"
  shows "\<exists>id1 id2. r1 = Inr id1 \<and> r2 = Inr id2 \<and> id1 < id2
           \<and> length (songs db1) = length (songs db) + 1
           \<and> length (songs db2) = length (songs db) + 1
           \<and> map row_id (filter (\<lambda>r. row_file_path r = p) (songs db2)) = [id2]
           \<and> get_song_metadata db2 id1 = None"
proof -
  let ?id1 = "Suc (max (sqlite_sequence db) (fold max (map row_id (songs db)) 0))"
  let ?id2 = "Suc (max (sqlite_sequence db1) (fold max (map row_id (songs db1)) 0))"
  from fresh have nop: "\<forall>r \<in> set (songs db). row_file_path r \<noteq> p"
    by (auto simp: get_song_by_path_def find_None_iff)
  then have keep: "filter (\<lambda>r. row_file_path r \<noteq> p) (songs db) = songs db"
    by (simp add: filter_True)
  from nop have none: "filter (\<lambda>r. row_file_path r = p) (songs db) = []"
    by (simp add: filter_False)
  from first have db1: "db1 = fst (add_song NoFault db t a p fps al du fs)"
    and r1: "r1 = snd (add_song NoFault db t a p fps al du fs)" by simp_all
  from second have db2: "db2 = fst (add_song NoFault db1 t' a' p fps' al' du' fs')"
    and r2: "r2 = snd (add_song NoFault db1 t' a' p fps' al' du' fs')" by simp_all
  have s1: "songs db1 = songs db
              @ [\<lparr>row_id = ?id1, row_title = t, row_artist = a, row_album = al,
                  row_file_path = p, row_duration = du, row_file_size = fs,
                  row_fingerprint_count = length fps\<rparr>]"
    unfolding db1 by (simp add: songs_add_song_no_fault keep)
  have q1: "sqlite_sequence db1 = ?id1" unfolding db1 by (rule seq_add_song_no_fault)
  have s2: "songs db2 = songs db
              @ [\<lparr>row_id = ?id2, row_title = t', row_artist = a', row_album = al',
                  row_file_path = p, row_duration = du', row_file_size = fs',
                  row_fingerprint_count = length fps'\<rparr>]"
    unfolding db2 by (simp add: songs_add_song_no_fault s1 keep)
  have "sqlite_sequence db1 \<le> max (sqlite_sequence db1) (fold max (map row_id (songs db1)) 0)"
    by (rule max.cobounded1)
  then have lt: "?id1 < ?id2" unfolding q1 by (rule le_imp_less_Suc)
  have ids: "\<forall>r \<in> set (songs db). row_id r \<le> fold max (map row_id (songs db)) 0"
    by (simp add: Max.set_eq_fold [symmetric])
  then have noid: "\<forall>r \<in> set (songs db). row_id r \<noteq> ?id1" by fastforce
  have "\<forall>r \<in> set (songs db2). row_id r \<noteq> ?id1"
  proof
    fix r assume "r \<in> set (songs db2)"
    then consider "r \<in> set (songs db)" | "row_id r = ?id2" unfolding s2 by auto
    then show "row_id r \<noteq> ?id1"
    proof cases
      case 1
      with noid show ?thesis by blast
    next
      case 2
      with lt show ?thesis by linarith
    qed
  qed
  then have gone: "get_song_metadata db2 ?id1 = None"
    unfolding get_song_metadata_def find_None_iff by blast
  show ?thesis
  proof (rule exI [of _ ?id1], rule exI [of _ ?id2], intro conjI)
    show "r1 = Inr ?id1" unfolding r1 by (rule result_add_song_no_fault)
    show "r2 = Inr ?id2" unfolding r2 by (rule result_add_song_no_fault)
    show "?id1 < ?id2" by (rule lt)
    show "length (songs db1) = length (songs db) + 1" by (simp add: s1)
    show "length (songs db2) = length (songs db) + 1" by (simp add: s2)
    show "map row_id (filter (\<lambda>r. row_file_path r = p) (songs db2)) = [?id2]"
      by (simp add: s2 none)
    show "get_song_metadata db2 ?id1 = None" by (rule gone)
  qed
qed

text \<open>Witness for C1: the same file ingested twice into an empty database.\<close>

theorem C1_second_ingest_replaces_witness:
  "get_song_by_path (init_database True) ''/music/a440.wav'' = None
   \<and> (\<exists>id1 id2.
         snd (add_song NoFault (init_database True) ''A440'' ''Test'' ''/music/a440.wav''
                [demo_hash] None (Some 10) None) = Inr id1
         \<and> snd (add_song NoFault one_song_db ''A440'' ''Test'' ''/music/a440.wav''
                [demo_hash] None (Some 10) None) = Inr id2
         \<and> id1 < id2
         \<and> length (songs one_song_db) = length (songs (init_database True)) + 1
         \<and> length (songs (fst (add_song NoFault one_song_db ''A440'' ''Test''
                ''/music/a440.wav'' [demo_hash] None (Some 10) None)))
             = length (songs (init_database True)) + 1)"
proof -
  have fresh: "get_song_by_path (init_database True) ''/music/a440.wav'' = None"
    by (simp add: get_song_by_path_def init_database_def)
  have first: "add_song NoFault (init_database True) ''A440'' ''Test'' ''/music/a440.wav''
                 [demo_hash] None (Some 10) None
               = (one_song_db,
                  snd (add_song NoFault (init_database True) ''A440'' ''Test''
                         ''/music/a440.wav'' [demo_hash] None (Some 10) None))"
    by (simp add: one_song_db_def)
  have second: "add_song NoFault one_song_db ''A440'' ''Test'' ''/music/a440.wav''
                  [demo_hash] None (Some 10) None
                = (fst (add_song NoFault one_song_db ''A440'' ''Test'' ''/music/a440.wav''
                          [demo_hash] None (Some 10) None),
                   snd (add_song NoFault one_song_db ''A440'' ''Test'' ''/music/a440.wav''
                          [demo_hash] None (Some 10) None))"
    by simp
  from C1_second_ingest_replaces [OF fresh first second] fresh
  show ?thesis by blast
qed

lemma fold_lpush_mono:
  "v \<in> set (r k) \<Longrightarrow>
   v \<in> set (fold (\<lambda>fp. lpush (hash_key (hash_value fp)) (occurrence_data sid fp)) fps r k)"
proof (induction fps arbitrary: r)
  case Nil
  then show ?case by simp
next
  case (Cons x fps)
  have "v \<in> set (lpush (hash_key (hash_value x)) (occurrence_data sid x) r k)"
    using Cons.prems by (auto simp: lpush_def)
  from Cons.IH [of "lpush (hash_key (hash_value x)) (occurrence_data sid x) r", OF this]
  show ?case by simp
qed

lemma fold_lpush_mem:
  "fp \<in> set fps \<Longrightarrow>
   occurrence_data sid fp
     \<in> set (fold (\<lambda>fp. lpush (hash_key (hash_value fp)) (occurrence_data sid fp)) fps r
              (hash_key (hash_value fp)))"
proof (induction fps arbitrary: r)
  case Nil
  then show ?case by simp
next
  case (Cons x fps)
  show ?case
  proof (cases "fp = x")
    case True
    have "occurrence_data sid x
            \<in> set (lpush (hash_key (hash_value x)) (occurrence_data sid x) r
                     (hash_key (hash_value x)))"
      by (simp add: lpush_def)
    from fold_lpush_mono
      [where r = "lpush (hash_key (hash_value x)) (occurrence_data sid x) r"
         and k = "hash_key (hash_value x)" and fps = fps and sid = sid, OF this]
      True
    show ?thesis by simp
  next
    case False
    with Cons show ?thesis by simp
  qed
qed

lemma add_song_sqlite_fails:
  "add_song SqliteFails db t a p fps al du fs = (db, Inl OperationalError)"
  by (simp add: add_song_def)

lemma add_song_redis_fails:
  "add_song RedisFails db t a p fps al du fs =
     (fst (insert_or_replace db t a al p du fs (length fps)),
      if redis_client db \<and> fps \<noteq> [] then Inl ConnectionError
      else Inr (snd (insert_or_replace db t a al p du fs (length fps))))"
  by (simp add: add_song_def insert_or_replace_def Let_def)

lemma redis_insert_or_replace [simp]:
  "redis (fst (insert_or_replace db t a al p du fs n)) = redis db"
  "redis_client (fst (insert_or_replace db t a al p du fs n)) = redis_client db"
  by (simp_all add: insert_or_replace_def Let_def)

lemma songs_insert_or_replace:
  "songs (fst (insert_or_replace db t a al p du fs n))
     = filter (\<lambda>r. row_file_path r \<noteq> p) (songs db)
       @ [\<lparr>row_id = snd (insert_or_replace db t a al p du fs n),
           row_title = t, row_artist = a, row_album = al, row_file_path = p,
           row_duration = du, row_file_size = fs, row_fingerprint_count = n\<rparr>]"
  by (simp add: insert_or_replace_def Let_def)

lemma new_row_in_songs:
  "\<lparr>row_id = snd (insert_or_replace db t a al p du fs n),
     row_title = t, row_artist = a, row_album = al, row_file_path = p,
     row_duration = du, row_file_size = fs, row_fingerprint_count = n\<rparr>
   \<in> set (songs (fst (insert_or_replace db t a al p du fs n)))"
  by (simp add: songs_insert_or_replace)

lemma path_after_insert:
  "get_song_by_path (fst (insert_or_replace db t a al p du fs n)) p \<noteq> None"
  unfolding get_song_by_path_def find_None_iff
  using new_row_in_songs [of db t a al p du fs n] by force

lemma id_after_insert:
  "get_song_metadata (fst (insert_or_replace db t a al p du fs n))
     (snd (insert_or_replace db t a al p du fs n)) \<noteq> None"
  unfolding get_song_metadata_def find_None_iff
  using new_row_in_songs [of db t a al p du fs n] by force

lemma add_song_cases:
  "add_song fault db t a p fps al du fs =
     (case fault of
        SqliteFails \<Rightarrow> (db, Inl OperationalError)
      | RedisFails \<Rightarrow>
          (fst (insert_or_replace db t a al p du fs (length fps)),
           if redis_client db \<and> fps \<noteq> [] then Inl ConnectionError
           else Inr (snd (insert_or_replace db t a al p du fs (length fps))))
      | NoFault \<Rightarrow>
          (if redis_client db \<and> fps \<noteq> []
           then store_fingerprints_redis
                  (fst (insert_or_replace db t a al p du fs (length fps)))
                  (snd (insert_or_replace db t a al p du fs (length fps))) fps
           else fst (insert_or_replace db t a al p du fs (length fps)),
           Inr (snd (insert_or_replace db t a al p du fs (length fps)))))"
  by (cases fault) (simp_all add: add_song_no_fault add_song_sqlite_fails add_song_redis_fails)

lemma get_song_metadata_store [simp]:
  "get_song_metadata (store_fingerprints_redis db sid fps) = get_song_metadata db"
  by (simp add: get_song_metadata_def fun_eq_iff)

lemma redis_store:
  "redis_client db \<Longrightarrow>
   redis (store_fingerprints_redis db sid fps)
     = fold (\<lambda>fp. lpush (hash_key (hash_value fp)) (occurrence_data sid fp)) fps (redis db)"
  by (simp add: store_fingerprints_redis_def)

text \<open>
  Claim C2, as stated, fails: when the Redis pipeline raises after the hashes were
  generated, the ingest fails (the orchestrator returns None) and no posting is written,
  but the metadata row, committed before, stays.
\<close>

theorem C2_counterexample:
  "snd (add_song_to_database RedisFails (init_database True)
          (Inr ([demo_hash], 10)) ''/music/a440.wav'' ''A440'' ''Test'' None None) = None
   \<and> map row_file_path
        (songs (fst (add_song_to_database RedisFails (init_database True)
           (Inr ([demo_hash], 10)) ''/music/a440.wav'' ''A440'' ''Test'' None None)))
      = [''/music/a440.wav'']
   \<and> redis (fst (add_song_to_database RedisFails (init_database True)
           (Inr ([demo_hash], 10)) ''/music/a440.wav'' ''A440'' ''Test'' None None))
      = redis (init_database True)"
  by (simp add: add_song_to_database_def add_song_def insert_or_replace_def
      init_database_def demo_hash_def)

text \<open>
  Claim C2, amended: an ingest that fails for any reason other than the posting commit
  (an exception while loading or fingerprinting, no fingerprints, a failure of the
  SQLite insert) leaves both stores unchanged; no failed ingest writes a posting; a
  successful ingest leaves its metadata row and, with Redis connected, every one of its
  postings visible; and an ingest whose posting commit fails leaves the metadata row in
  place with none of its postings.
\<close>

theorem C2_ingest_failures:
  assumes run: "add_song_to_database fault db pipeline p t a al fs = (db', res)"
  shows "(res = None \<and> fault \<noteq> RedisFails \<longrightarrow> db' = db)
         \<and> (res = None \<longrightarrow> redis db' = redis db)
         \<and> (\<forall>new_id. res = Some new_id \<longrightarrow>
               get_song_metadata db' new_id \<noteq> None
               \<and> (\<exists>fps d. pipeline = Inr (fps, d)
                     \<and> (redis_client db \<longrightarrow>
                          (\<forall>fp \<in> set fps.
                             occurrence_data new_id fp
                               \<in> set (redis db' (hash_key (hash_value fp)))))))
         \<and> (\<forall>fps d. fault = RedisFails \<and> redis_client db \<and> pipeline = Inr (fps, d)
                     \<and> fps \<noteq> [] \<longrightarrow>
               res = None \<and> get_song_by_path db' p \<noteq> None)"
proof (cases pipeline)
  case (Inl e)
  with run show ?thesis by (simp add: add_song_to_database_def)
next
  case (Inr pr)
  obtain fps d where pr: "pr = (fps, d)" by (cases pr)
  show ?thesis
  proof (cases "fps = []")
    case True
    with run Inr pr show ?thesis by (simp add: add_song_to_database_def)
  next
    case False
    let ?ior = "insert_or_replace db t a al p (Some d) fs (length fps)"
    show ?thesis
    proof (cases fault)
      case SqliteFails
      with run Inr pr False show ?thesis
        by (auto simp: add_song_to_database_def add_song_cases)
    next
      case RedisFails
      show ?thesis
      proof (cases "redis_client db")
        case True
        with run Inr pr False RedisFails
        have "db' = fst ?ior" "res = None"
          by (auto simp: add_song_to_database_def add_song_cases)
        with Inr pr RedisFails show ?thesis
          using path_after_insert [of db t a al p "Some d" fs "length fps"] by auto
      next
        case False
        with run Inr pr \<open>fps \<noteq> []\<close> RedisFails
        have "db' = fst ?ior" "res = Some (snd ?ior)"
          by (auto simp: add_song_to_database_def add_song_cases)
        with Inr pr RedisFails False show ?thesis
          using id_after_insert [of db t a al p "Some d" fs "length fps"] by auto
      qed
    next
      case NoFault
      show ?thesis
      proof (cases "redis_client db")
        case True
        with run Inr pr False NoFault
        have db': "db' = store_fingerprints_redis (fst ?ior) (snd ?ior) fps"
          and res: "res = Some (snd ?ior)"
          by (auto simp: add_song_to_database_def add_song_cases)
        have "\<forall>fp \<in> set fps.
                occurrence_data (snd ?ior) fp \<in> set (redis db' (hash_key (hash_value fp)))"
          unfolding db' using True by (simp add: redis_store fold_lpush_mem)
        with db' res Inr pr NoFault show ?thesis
          using id_after_insert [of db t a al p "Some d" fs "length fps"] by auto
      next
        case False
        with run Inr pr \<open>fps \<noteq> []\<close> NoFault
        have "db' = fst ?ior" "res = Some (snd ?ior)"
          by (auto simp: add_song_to_database_def add_song_cases)
        with Inr pr NoFault False show ?thesis
          using id_after_insert [of db t a al p "Some d" fs "length fps"] by auto
      qed
    qed
  qed
qed

text \<open>Witness for C2: the posting commit fails on the first ingest into an empty database.\<close>

theorem C2_ingest_failures_witness:
  "snd (add_song_to_database RedisFails (init_database True)
          (Inr ([demo_hash], 10)) ''/music/a440.wav'' ''A440'' ''Test'' None None) = None
   \<and> redis (fst (add_song_to_database RedisFails (init_database True)
          (Inr ([demo_hash], 10)) ''/music/a440.wav'' ''A440'' ''Test'' None None))
       = redis (init_database True)
   \<and> get_song_by_path (fst (add_song_to_database RedisFails (init_database True)
          (Inr ([demo_hash], 10)) ''/music/a440.wav'' ''A440'' ''Test'' None None))
         ''/music/a440.wav'' \<noteq> None"
proof -
  let ?X = "add_song_to_database RedisFails (init_database True)
              (Inr ([demo_hash], 10)) ''/music/a440.wav'' ''A440'' ''Test'' None None"
  have up: "redis_client (init_database True)" by (simp add: init_database_def)
  note th = C2_ingest_failures [OF prod.collapse [symmetric],
      of RedisFails "init_database True" "Inr ([demo_hash], 10)" "''/music/a440.wav''"
         "''A440''" "''Test''" None None]
  note B = th [THEN conjunct2, THEN conjunct1]
  note D = th [THEN conjunct2, THEN conjunct2, THEN conjunct2, rule_format,
      of "[demo_hash]" 10]
  from D up have d: "snd ?X = None \<and> get_song_by_path (fst ?X) ''/music/a440.wav'' \<noteq> None"
    by simp
  with B have "redis (fst ?X) = redis (init_database True)" by simp
  with d show ?thesis by simp
qed

subsection \<open>The number of hashes retained\<close>

text \<open>
  Claim C3 says that at most \<open>MAX_FINGERPRINTS_PER_TRACK\<close> = 10000 hashes are retained
  per ingested song, the excess being cut off at the tail.  No statement applies the
  limit: for 502 frames with one peak in each of four bands (about twelve seconds of
  audio) \<open>generate_hashes\<close> returns 10016 hashes, and \<open>add_song\<close> records all of them
  for the song.
\<close>

theorem C3_cap_exceeded:
  "length (generate_hashes H (grid_peaks 502)) = 10016
   \<and> MAX_FINGERPRINTS_PER_TRACK < length (generate_hashes H (grid_peaks 502))
   \<and> map row_fingerprint_count
        (songs (fst (add_song NoFault (init_database True) ''A440'' ''Test''
                       ''/music/a440.wav'' (generate_hashes H (grid_peaks 502))
                       None None None)))
      = [10016]"
  by (simp add: generate_hashes_grid MAX_FINGERPRINTS_PER_TRACK_def
      songs_add_song_no_fault init_database_def)

section \<open>Properties of the matcher\<close>

lemma counter_add_keys: "set (map fst (counter_add x c)) = insert x (set (map fst c))"
proof (induction c)
  case Nil
  then show ?case by simp
next
  case (Cons e c)
  obtain y n where "e = (y, n)" by (cases e)
  with Cons show ?case by (cases "x = y") auto
qed

lemma counter_add_distinct:
  "distinct (map fst c) \<Longrightarrow> distinct (map fst (counter_add x c))"
proof (induction c)
  case Nil
  then show ?case by simp
next
  case (Cons e c)
  obtain y n where e: "e = (y, n)" by (cases e)
  show ?case
  proof (cases "x = y")
    case True
    with Cons.prems e show ?thesis by simp
  next
    case False
    with Cons e counter_add_keys [of x c] show ?thesis by simp
  qed
qed

lemma counter_add_map_of:
  "map_of (counter_add x c) y =
     (if y = x then Some (case map_of c x of None \<Rightarrow> 1 | Some n \<Rightarrow> n + 1) else map_of c y)"
  by (induction c) auto

lemma Counter_snoc: "Counter (xs @ [x]) = counter_add x (Counter xs)"
  by (simp add: Counter_def)

lemma Counter_distinct: "distinct (map fst (Counter xs))"
proof (induction xs rule: rev_induct)
  case Nil
  then show ?case by (simp add: Counter_def)
next
  case (snoc x xs)
  then show ?case by (simp add: Counter_snoc counter_add_distinct)
qed

lemma Counter_map_of:
  "map_of (Counter xs) y = (if y \<in> set xs then Some (count_list xs y) else None)"
proof (induction xs rule: rev_induct)
  case Nil
  then show ?case by (simp add: Counter_def)
next
  case (snoc x xs)
  then show ?case by (auto simp: Counter_snoc counter_add_map_of)
qed

lemma Counter_mem:
  "(y, n) \<in> set (Counter xs) \<longleftrightarrow> y \<in> set xs \<and> n = count_list xs y"
proof -
  have "(y, n) \<in> set (Counter xs) \<longleftrightarrow> map_of (Counter xs) y = Some n"
    using Counter_distinct [of xs] by simp
  then show ?thesis by (auto simp: Counter_map_of)
qed

lemma max_by_count_props:
  "max_by_count e es \<in> set (e # es)
   \<and> (\<forall>y \<in> set (e # es). snd y \<le> snd (max_by_count e es))"
proof (induction es arbitrary: e)
  case Nil
  then show ?case by (simp add: max_by_count_def)
next
  case (Cons x es)
  let ?e' = "if snd e < snd x then x else e"
  have eq: "max_by_count e (x # es) = max_by_count ?e' es"
    by (simp add: max_by_count_def)
  from Cons [of ?e'] show ?case unfolding eq by (auto split: if_splits)
qed

lemma find_best_alignment_mode:
  assumes ne: "time_offsets \<noteq> []"
  shows "\<exists>best_offset aligned_count.
           best_offset \<in> set (map quantize time_offsets)
           \<and> aligned_count = count_list (map quantize time_offsets) best_offset
           \<and> (\<forall>q. count_list (map quantize time_offsets) q \<le> aligned_count)
           \<and> find_best_alignment time_offsets =
               (if (if real (card (set time_offsets)) / real (length time_offsets) < 0.3
                    then 0.05 else 0.3)
                   \<le> real aligned_count / real (length time_offsets)
                then Some (best_offset, aligned_count) else None)"
proof -
  let ?qs = "map quantize time_offsets"
  from ne obtain q0 where "q0 \<in> set ?qs" by (cases time_offsets) auto
  then have "(q0, count_list ?qs q0) \<in> set (Counter ?qs)" by (simp add: Counter_mem)
  then obtain e es where c: "Counter ?qs = e # es" by (cases "Counter ?qs") auto
  obtain b n where bn: "max_by_count e es = (b, n)" by (cases "max_by_count e es")
  from max_by_count_props [of e es] bn c
  have mem: "(b, n) \<in> set (Counter ?qs)"
    and top: "\<forall>y \<in> set (Counter ?qs). snd y \<le> n" by auto
  from mem have b: "b \<in> set ?qs" and n: "n = count_list ?qs b" by (simp_all add: Counter_mem)
  have all: "\<forall>q. count_list ?qs q \<le> n"
  proof
    fix q
    show "count_list ?qs q \<le> n"
    proof (cases "q \<in> set ?qs")
      case True
      then have "(q, count_list ?qs q) \<in> set (Counter ?qs)" by (simp add: Counter_mem)
      with top show ?thesis by fastforce
    next
      case False
      then show ?thesis by (simp add: count_list_0_iff)
    qed
  qed
  have "find_best_alignment time_offsets =
          (if (if real (card (set time_offsets)) / real (length time_offsets) < 0.3
               then 0.05 else 0.3)
              \<le> real n / real (length time_offsets)
           then Some (b, n) else None)"
    using ne by (simp add: find_best_alignment_def c bn Let_def not_less)
  with b n all show ?thesis by blast
qed

text \<open>
  Claim C7: for a non-empty bucket, the aligned count is the count of a most frequent
  quantized offset, \<open>unique_ratio\<close> is the number of distinct raw offsets over the bucket
  size, and the alignment is accepted if and only if aligned_count / |bucket| is at least
  the threshold, 0.05 when \<open>unique_ratio < 0.3\<close> and 0.3 otherwise; a candidate whose
  alignment is rejected yields no match result.  (The ratios are compared as reals.)
\<close>

theorem C7_alignment_gate:
  assumes ne: "time_offsets \<noteq> []"
  shows "(\<exists>best_offset aligned_count.
            best_offset \<in> set (map quantize time_offsets)
            \<and> aligned_count = count_list (map quantize time_offsets) best_offset
            \<and> (\<forall>q. count_list (map quantize time_offsets) q \<le> aligned_count)
            \<and> find_best_alignment time_offsets =
                (if (if real (card (set time_offsets)) / real (length time_offsets) < 0.3
                     then 0.05 else 0.3)
                    \<le> real aligned_count / real (length time_offsets)
                 then Some (best_offset, aligned_count) else None))
         \<and> (find_best_alignment (map (\<lambda>occ. occ_time_offset occ - query_time occ) occurrences)
               = None
             \<longrightarrow> analyze_song_match db sid occurrences n_query_hashes = None)"
proof
  show "\<exists>best_offset aligned_count.
            best_offset \<in> set (map quantize time_offsets)
            \<and> aligned_count = count_list (map quantize time_offsets) best_offset
            \<and> (\<forall>q. count_list (map quantize time_offsets) q \<le> aligned_count)
            \<and> find_best_alignment time_offsets =
                (if (if real (card (set time_offsets)) / real (length time_offsets) < 0.3
                     then 0.05 else 0.3)
                    \<le> real aligned_count / real (length time_offsets)
                 then Some (best_offset, aligned_count) else None)"
    using ne by (rule find_best_alignment_mode)
  show "find_best_alignment (map (\<lambda>occ. occ_time_offset occ - query_time occ) occurrences)
               = None
             \<longrightarrow> analyze_song_match db sid occurrences n_query_hashes = None"
    by (simp add: analyze_song_match_def Let_def)
qed

text \<open>
  Witness for C7: the offsets 0, 10, 20, 20 are all distinct after quantization except
  the last two; the mode 20 has count 2, the ratio 0.5 passes the threshold 0.3.
\<close>

theorem C7_alignment_gate_witness:
  "[0, 10, 20, 20 :: int] \<noteq> []
   \<and> find_best_alignment [0, 10, 20, 20] = Some (20, 2)
   \<and> (\<exists>best_offset aligned_count.
         best_offset \<in> set (map quantize [0, 10, 20, 20])
         \<and> aligned_count = count_list (map quantize [0, 10, 20, 20]) best_offset
         \<and> (\<forall>q. count_list (map quantize [0, 10, 20, 20]) q \<le> aligned_count)
         \<and> find_best_alignment [0, 10, 20, 20] =
             (if (if real (card (set [0, 10, 20, 20 :: int])) / real (length [0, 10, 20, 20 :: int]) < 0.3
                  then 0.05 else 0.3)
                 \<le> real aligned_count / real (length [0, 10, 20, 20 :: int])
              then Some (best_offset, aligned_count) else None))"
proof -
  have ne: "[0, 10, 20, 20 :: int] \<noteq> []" by simp
  have ev: "find_best_alignment [0, 10, 20, 20] = Some (20, 2)" by code_simp
  from C7_alignment_gate [OF ne] ne ev show ?thesis by blast
qed

subsection \<open>Removed songs\<close>

lemma fold_max_ge: "(m::nat) \<le> fold max xs m"
  by (induction xs arbitrary: m) (auto intro: order_trans [OF max.cobounded2])

lemma get_song_metadata_None:
  "get_song_metadata db sid = None \<longleftrightarrow> sid \<notin> row_id ` set (songs db)"
  by (auto simp: get_song_metadata_def find_None_iff)

lemma insert_or_replace_id:
  "sqlite_sequence db < snd (insert_or_replace db t a al p du fs n)"
  "sqlite_sequence (fst (insert_or_replace db t a al p du fs n))
     = snd (insert_or_replace db t a al p du fs n)"
  by (simp_all add: insert_or_replace_def Let_def less_Suc_eq_le)

lemma add_song_effect:
  "fst (add_song fault db t a p fps al du fs) = db
   \<or> (songs (fst (add_song fault db t a p fps al du fs))
         = songs (fst (insert_or_replace db t a al p du fs (length fps)))
       \<and> sqlite_sequence (fst (add_song fault db t a p fps al du fs))
         = snd (insert_or_replace db t a al p du fs (length fps)))"
  by (cases fault) (simp_all add: add_song_cases insert_or_replace_id)

lemma dead_id_add_song:
  assumes "sid \<le> sqlite_sequence db" and "sid \<notin> row_id ` set (songs db)"
  shows "sid \<le> sqlite_sequence (fst (add_song fault db t a p fps al du fs))
         \<and> sid \<notin> row_id ` set (songs (fst (add_song fault db t a p fps al du fs)))"
proof -
  let ?db' = "fst (add_song fault db t a p fps al du fs)"
  let ?new = "snd (insert_or_replace db t a al p du fs (length fps))"
  from add_song_effect [of fault db t a p fps al du fs]
  show ?thesis
  proof
    assume "?db' = db"
    with assms show ?thesis by simp
  next
    assume eff: "songs ?db' = songs (fst (insert_or_replace db t a al p du fs (length fps)))
                 \<and> sqlite_sequence ?db' = ?new"
    have lt: "sqlite_sequence db < ?new" by (rule insert_or_replace_id)
    with assms(1) have "sid < ?new" by simp
    moreover have "row_id ` set (songs ?db') \<subseteq> insert ?new (row_id ` set (songs db))"
      using eff by (auto simp: songs_insert_or_replace)
    ultimately show ?thesis using assms(2) eff by auto
  qed
qed

lemma dead_id_remove_song:
  assumes "sid \<le> sqlite_sequence db" and "sid \<notin> row_id ` set (songs db)"
  shows "sid \<le> sqlite_sequence (fst (remove_song db other))
         \<and> sid \<notin> row_id ` set (songs (fst (remove_song db other)))"
  using assms by (auto simp: remove_song_def split: option.splits)

lemma dead_id_run_ops:
  assumes "sid \<le> sqlite_sequence db" and "sid \<notin> row_id ` set (songs db)"
  shows "sid \<le> sqlite_sequence (run_ops ops db)
         \<and> sid \<notin> row_id ` set (songs (run_ops ops db))"
  using assms
proof (induction ops arbitrary: db)
  case Nil
  then show ?case by (simp add: run_ops_def)
next
  case (Cons x ops)
  have step: "sid \<le> sqlite_sequence (run_op x db)
              \<and> sid \<notin> row_id ` set (songs (run_op x db))"
  proof (cases x)
    case (AddSong fault t a p fps al du fs)
    with dead_id_add_song [OF Cons.prems] show ?thesis by simp
  next
    case (RemoveSong other)
    with dead_id_remove_song [OF Cons.prems] show ?thesis by simp
  qed
  have "run_ops (x # ops) db = run_ops ops (run_op x db)" by (simp add: run_ops_def)
  with Cons.IH [of "run_op x db"] step show ?case by simp
qed

lemma ids_bounded_run_op: "ids_bounded db \<Longrightarrow> ids_bounded (run_op x db)"
proof (cases x)
  case (AddSong fault t a p fps al du fs)
  assume b: "ids_bounded db"
  from add_song_effect [of fault db t a p fps al du fs]
  show ?thesis
  proof
    assume "fst (add_song fault db t a p fps al du fs) = db"
    with b AddSong show ?thesis by simp
  next
    assume eff: "songs (fst (add_song fault db t a p fps al du fs))
                   = songs (fst (insert_or_replace db t a al p du fs (length fps)))
                 \<and> sqlite_sequence (fst (add_song fault db t a p fps al du fs))
                   = snd (insert_or_replace db t a al p du fs (length fps))"
    have "sqlite_sequence db < snd (insert_or_replace db t a al p du fs (length fps))"
      by (rule insert_or_replace_id)
    with b eff AddSong show ?thesis
      by (fastforce simp: ids_bounded_def songs_insert_or_replace)
  qed
next
  case (RemoveSong other)
  assume "ids_bounded db"
  with RemoveSong show ?thesis
    by (auto simp: ids_bounded_def remove_song_def split: option.splits)
qed

lemma ids_bounded_run_ops: "ids_bounded db \<Longrightarrow> ids_bounded (run_ops ops db)"
proof (induction ops arbitrary: db)
  case Nil
  then show ?case by (simp add: run_ops_def)
next
  case (Cons x ops)
  have "run_ops (x # ops) db = run_ops ops (run_op x db)" by (simp add: run_ops_def)
  with Cons.IH [of "run_op x db"] ids_bounded_run_op [OF Cons.prems] show ?case by simp
qed

lemma ids_bounded_init: "ids_bounded (init_database up)"
  by (simp add: ids_bounded_def init_database_def)

lemma analyze_song_match_live:
  "analyze_song_match db sid occs n = Some m \<Longrightarrow>
   song_id m = sid \<and> get_song_metadata db sid \<noteq> None"
  by (auto simp: analyze_song_match_def Let_def split: if_splits option.splits)

lemma candidate_result_key:
  "candidate_result db mm n (sid, occs) = Some m \<Longrightarrow>
   song_id m = sid \<and> get_song_metadata db sid \<noteq> None"
  using analyze_song_match_live [of db sid occs n]
  by (auto simp: candidate_result_def split: if_splits option.splits)

lemma find_matches_live:
  assumes "m \<in> set (find_matches db q mm)"
  shows "get_song_metadata db (song_id m) \<noteq> None"
proof -
  from assms obtain entry where "candidate_result db mm (length q) entry = Some m"
    by (auto simp: find_matches_def Let_def List.map_filter_def split: if_splits)
  then show ?thesis using candidate_result_key [of db mm "length q" "fst entry" "snd entry" m]
    by simp
qed

lemma identify_best_match_mem:
  "identify_best_match db q = Some m \<Longrightarrow> m \<in> set (find_matches db q MIN_MATCHING_HASHES)"
  by (auto simp: identify_best_match_def split: list.splits)

lemma remove_song_True:
  assumes "remove_song db sid = (db1, True)"
  shows "sid \<in> row_id ` set (songs db)" and "sid \<notin> row_id ` set (songs db1)"
    and "sqlite_sequence db1 = sqlite_sequence db"
proof -
  from assms obtain r where r: "get_song_metadata db sid = Some r"
    by (auto simp: remove_song_def split: option.splits)
  then show "sid \<in> row_id ` set (songs db)"
    using get_song_metadata_None [of db sid] by simp
  from assms r have db1: "db1 = db\<lparr>songs := filter (\<lambda>r. row_id r \<noteq> sid) (songs db)\<rparr>"
    by (simp add: remove_song_def)
  then show "sid \<notin> row_id ` set (songs db1)" by auto
  from db1 show "sqlite_sequence db1 = sqlite_sequence db" by simp
qed

text \<open>
  Claim C8: let the database be in any state reached from an empty one by ingests and
  removals, and let \<open>remove_song\<close> succeed on the song id \<open>sid\<close>.  Then after any further
  ingests and removals the id has no metadata row, and no result of \<open>find_matches\<close>,
  \<open>identify_best_match\<close> or \<open>identify_audio_file\<close> carries it, although the removal
  leaves the postings index as it was.
\<close>

theorem C8_removed_song_never_returned:
  assumes reach: "db = run_ops history (init_database redis_up)"
    and removed: "remove_song db sid = (db1, True)"
  shows "redis db1 = redis db
         \<and> get_song_metadata (run_ops later db1) sid = None
         \<and> sid \<notin> song_id ` set (find_matches (run_ops later db1) query_hashes min_matches)
         \<and> map_option song_id (identify_best_match (run_ops later db1) query_hashes) \<noteq> Some sid
         \<and> map_option song_id (identify_audio_file (run_ops later db1) pipeline) \<noteq> Some sid"
proof -
  let ?db2 = "run_ops later db1"
  have kept: "redis db1 = redis db"
    using removed by (auto simp: remove_song_def split: option.splits)
  have "ids_bounded db" unfolding reach by (intro ids_bounded_run_ops ids_bounded_init)
  with remove_song_True(1) [OF removed] have "sid \<le> sqlite_sequence db"
    by (auto simp: ids_bounded_def)
  then have "sid \<le> sqlite_sequence db1" using remove_song_True(3) [OF removed] by simp
  from dead_id_run_ops [OF this remove_song_True(2) [OF removed], of later]
  have dead: "get_song_metadata ?db2 sid = None" by (simp add: get_song_metadata_None)
  have fm: "\<And>mm q. sid \<notin> song_id ` set (find_matches ?db2 q mm)"
  proof
    fix mm q assume "sid \<in> song_id ` set (find_matches ?db2 q mm)"
    then obtain m where "m \<in> set (find_matches ?db2 q mm)" "song_id m = sid" by auto
    with find_matches_live [of m ?db2 q mm] dead show False by simp
  qed
  have ib: "\<And>q. map_option song_id (identify_best_match ?db2 q) \<noteq> Some sid"
  proof
    fix q assume "map_option song_id (identify_best_match ?db2 q) = Some sid"
    then obtain m where "identify_best_match ?db2 q = Some m" "song_id m = sid" by auto
    with identify_best_match_mem [of ?db2 q m] fm [of q MIN_MATCHING_HASHES]
    show False by auto
  qed
  have ia: "map_option song_id (identify_audio_file ?db2 pipeline) \<noteq> Some sid"
    using ib by (auto simp: identify_audio_file_def split: sum.splits)
  from kept dead fm ib ia show ?thesis by blast
qed

text \<open>
  The scenario "remove, then query" on \<open>two_song_db\<close>: song A is removed and the hashes
  that A and B share are queried.  The postings of A are still in the index, and the
  best match is B.
\<close>

lemma confidence_three_of_three:
  "CONFIDENCE_THRESHOLD \<le> calculate_confidence 3 (Suc (Suc (Suc 0))) (Suc (Suc (Suc 0)))"
proof -
  have "calculate_confidence 3 (Suc (Suc (Suc 0))) (Suc (Suc (Suc 0)))
          = min 1 (0.7 + 0.3 * min 1 (ln (real 3 + 1) / ln 20))"
    by (simp add: calculate_confidence_def Let_def)
  with raw_strength_nonneg [of 3] show ?thesis by (simp add: CONFIDENCE_THRESHOLD_def)
qed

lemma aligned_three: "find_best_alignment [0, 0, 0] = Some (0, 3)"
  by code_simp

lemma remove_then_query:
  "map_option song_id (identify_best_match (fst (remove_song two_song_db 1)) demo_hashes)
     = Some 2"
  by (simp add: identify_best_match_def find_matches_def two_song_db_def run_ops_def
      add_song_def insert_or_replace_def init_database_def store_fingerprints_redis_def
      remove_song_def get_song_metadata_def demo_hashes_def search_fingerprints_def
      lpush_def hash_key_def occurrence_data_def with_query_time_def occurrence.extend_def
      List.map_filter_def candidate_result_def analyze_song_match_def
      MIN_MATCHING_HASHES_def aligned_three confidence_three_of_three)

lemma postings_remain:
  "map occ_song_id (redis (fst (remove_song two_song_db 1)) (hash_key ''aaaaaaaaaaaaaaaa''))
     = [2, 1]"
  by (simp add: two_song_db_def run_ops_def
      add_song_def insert_or_replace_def init_database_def store_fingerprints_redis_def
      remove_song_def get_song_metadata_def demo_hashes_def
      lpush_def hash_key_def occurrence_data_def)

text \<open>
  Witness for C8: in that scenario the removal succeeds, the first bucket still lists
  both songs, the removed id 1 has no row and is not the best match; the best match is
  song 2.
\<close>

theorem C8_removed_song_never_returned_witness:
  "snd (remove_song two_song_db 1) = True
   \<and> map occ_song_id (redis (fst (remove_song two_song_db 1)) (hash_key ''aaaaaaaaaaaaaaaa''))
       = [2, 1]
   \<and> get_song_metadata (run_ops [] (fst (remove_song two_song_db 1))) 1 = None
   \<and> map_option song_id
        (identify_best_match (run_ops [] (fst (remove_song two_song_db 1))) demo_hashes)
      \<noteq> Some 1
   \<and> map_option song_id (identify_best_match (fst (remove_song two_song_db 1)) demo_hashes)
      = Some 2"
proof -
  have ok: "snd (remove_song two_song_db 1) = True"
    by (simp add: two_song_db_def run_ops_def add_song_def insert_or_replace_def
        init_database_def store_fingerprints_redis_def remove_song_def
        get_song_metadata_def demo_hashes_def)
  then have rm: "remove_song two_song_db 1 = (fst (remove_song two_song_db 1), True)"
    by (metis prod.collapse)
  from C8_removed_song_never_returned [OF two_song_db_def rm,
      where later = "[]" and query_hashes = demo_hashes and min_matches = MIN_MATCHING_HASHES]
  show ?thesis using ok postings_remain remove_then_query by blast
qed

section \<open>Properties of preprocessing\<close>

text \<open>
  Claim C9, as stated, fails: for an empty input at the engine's rate the stage returns
  the empty stream; it raises nothing.
\<close>

theorem C9_counterexample:
  "preprocess_audio failing_scipy SAMPLE_RATE (Mono []) 22050 = Inr []
   \<and> preprocess_audio failing_scipy SAMPLE_RATE (Mono []) 22050 \<noteq> Inl EmptyInput"
  by (simp add: preprocess_audio_def failing_scipy_def SAMPLE_RATE_def)

text \<open>
  Claim C9, amended: for every empty one-dimensional input the stage returns a stream
  and no error; the stream is empty whenever no resampling takes place (the input is at
  the engine's rate, or scipy is missing) or the resampling attempts raise.
\<close>

theorem C9_empty_input_returned:
  "(\<exists>stream. preprocess_audio lib sample_rate (Mono []) sr = Inr stream)
   \<and> (sr = sample_rate \<or> \<not> HAVE_SCIPY lib
        \<or> (isl (resample_poly lib [] (sample_rate div gcd sr sample_rate)
                   (sr div gcd sr sample_rate))
            \<and> (sr = 0 \<or> isl (resample lib [] 0)))
       \<longrightarrow> preprocess_audio lib sample_rate (Mono []) sr = Inr [])"
  by (auto simp: preprocess_audio_def Let_def isl_def split: sum.splits)

text \<open>Witness for C9: an empty input at 44100 Hz with resamplers that raise.\<close>

theorem C9_empty_input_returned_witness:
  "(\<exists>stream. preprocess_audio failing_scipy SAMPLE_RATE (Mono []) 44100 = Inr stream)
   \<and> preprocess_audio failing_scipy SAMPLE_RATE (Mono []) 44100 = Inr []"
  using C9_empty_input_returned [of failing_scipy SAMPLE_RATE 44100]
  by (simp add: failing_scipy_def)

end
